theory Spec2Isabelle
  imports Main "HOL-Library.Multiset"
begin
section \<open>JavaScript values seen by the dispatcher\<close>

text \<open>
  \<open>rpmControlledBatch\<close> (src/AINaming/geminiCaller.mjs) treats the task function as
  opaque, but it inspects the values that flow through it: argument tuples must be
  arrays, a thrown value is probed for \<open>status\<close>, \<open>errorDetails\<close>, \<open>@type\<close> and
  \<open>retryDelay\<close>, and callers probe a result for \<open>error\<close>. These values are modelled
  as a small JSON-like datatype. Numbers are integers (the dispatcher only ever computes
  with millisecond instants, counters and whole seconds); the one non-integer number that
  the code can produce, NaN, is a constructor of its own where it can arise.
\<close>

datatype jsval =
    JUndef
  | JNull
  | JBool bool
  | JNum int
  | JStr string
  | JArr "jsval list"
  | JObj "(string \<times> jsval) list"

text \<open>A JavaScript number that may be NaN (results of \<open>parseInt\<close> and of arithmetic on
  \<open>undefined\<close>).\<close>

datatype jsnum = NaN | Num int

text \<open>\<open>x > 0\<close> in JavaScript: every comparison with NaN is false.\<close>

fun gt0 :: "jsnum \<Rightarrow> bool" where
  "gt0 NaN = False"
| "gt0 (Num n) = (0 < n)"

text \<open>The value read from a number known not to be NaN.\<close>

fun num_of :: "jsnum \<Rightarrow> int" where
  "num_of NaN = 0"
| "num_of (Num n) = n"

text \<open>Truthiness, as used by \<open>&&\<close>, \<open>||\<close> and \<open>if\<close>.\<close>

fun truthy :: "jsval \<Rightarrow> bool" where
  "truthy JUndef = False"
| "truthy JNull = False"
| "truthy (JBool b) = b"
| "truthy (JNum n) = (n \<noteq> 0)"
| "truthy (JStr s) = (s \<noteq> [])"
| "truthy (JArr xs) = True"
| "truthy (JObj kvs) = True"

text \<open>
  Property read \<open>v[k]\<close> for the keys the code uses (none of them is a built-in property
  of strings, numbers or arrays). Reading a property of \<open>undefined\<close> or \<open>null\<close>
  throws a TypeError: \<open>None\<close>. An object yields its own property or \<open>undefined\<close>;
  every other value yields \<open>undefined\<close>.
\<close>

fun get_prop :: "string \<Rightarrow> jsval \<Rightarrow> jsval option" where
  "get_prop k JUndef = None"
| "get_prop k JNull = None"
| "get_prop k (JObj kvs) = (case map_of kvs k of None \<Rightarrow> Some JUndef | Some v \<Rightarrow> Some v)"
| "get_prop k v = Some JUndef"

text \<open>\<open>s.includes(p)\<close> on strings: \<open>p\<close> occurs as a contiguous substring.\<close>

fun is_prefix :: "string \<Rightarrow> string \<Rightarrow> bool" where
  "is_prefix [] s = True"
| "is_prefix (c # p) [] = False"
| "is_prefix (c # p) (d # s) = (c = d \<and> is_prefix p s)"

fun str_includes :: "string \<Rightarrow> string \<Rightarrow> bool" where
  "str_includes [] p = (p = [])"
| "str_includes (c # s) p = (is_prefix p (c # s) \<or> str_includes s p)"

text \<open>
  \<open>v.includes('RetryInfo')\<close>: strings test for a substring, arrays for an element
  strictly equal to the string; no other value has an \<open>includes\<close> method, so the call
  throws a TypeError (\<open>None\<close>).
\<close>

fun js_includes :: "jsval \<Rightarrow> string \<Rightarrow> bool option" where
  "js_includes (JStr s) p = Some (str_includes s p)"
| "js_includes (JArr xs) p = Some (JStr p \<in> set xs)"
| "js_includes v p = None"

text \<open>\<open>s.replace('s', '')\<close> with a string pattern: the first occurrence of the
  character is removed.\<close>

fun remove_first :: "char \<Rightarrow> string \<Rightarrow> string" where
  "remove_first c [] = []"
| "remove_first c (d # s) = (if c = d then s else d # remove_first c s)"

subsection \<open>parseInt\<close>

text \<open>
  \<open>parseInt(s)\<close> without a radix: leading white space is skipped, an optional sign is
  read, a \<open>0x\<close>/\<open>0X\<close> prefix selects base 16, and the longest prefix of digits is
  converted; the result is NaN when there is no digit. (ASCII white space only.)
\<close>

definition is_space :: "char \<Rightarrow> bool" where
  "is_space c = (c \<in> set [CHR '' '', CHR 0x09, CHR 0x0A, CHR 0x0B, CHR 0x0C, CHR 0x0D])"

definition digit_val :: "char \<Rightarrow> nat option" where
  "digit_val c =
     (let n = of_char c :: nat in
      if 48 \<le> n \<and> n \<le> 57 then Some (n - 48)
      else if 97 \<le> n \<and> n \<le> 102 then Some (n - 87)
      else if 65 \<le> n \<and> n \<le> 70 then Some (n - 55)
      else None)"

definition is_digit :: "nat \<Rightarrow> char \<Rightarrow> bool" where
  "is_digit radix c = (case digit_val c of None \<Rightarrow> False | Some d \<Rightarrow> d < radix)"

definition digits_value :: "nat \<Rightarrow> string \<Rightarrow> int" where
  "digits_value radix ds =
     foldl (\<lambda>acc c. acc * int radix + int (case digit_val c of None \<Rightarrow> 0 | Some d \<Rightarrow> d)) 0 ds"

definition parse_digits :: "nat \<Rightarrow> string \<Rightarrow> jsnum" where
  "parse_digits radix s =
     (let ds = takeWhile (is_digit radix) s in
      if ds = [] then NaN else Num (digits_value radix ds))"

definition parse_unsigned :: "string \<Rightarrow> jsnum" where
  "parse_unsigned s =
     (case s of
        c # d # rest \<Rightarrow>
          if c = CHR ''0'' \<and> (d = CHR ''x'' \<or> d = CHR ''X'') then parse_digits 16 rest
          else parse_digits 10 s
      | _ \<Rightarrow> parse_digits 10 s)"

fun neg_num :: "jsnum \<Rightarrow> jsnum" where
  "neg_num NaN = NaN"
| "neg_num (Num n) = Num (- n)"

definition parseInt :: "string \<Rightarrow> jsnum" where
  "parseInt s =
     (case dropWhile is_space s of
        [] \<Rightarrow> NaN
      | c # rest \<Rightarrow>
          if c = CHR ''-'' then neg_num (parse_unsigned rest)
          else if c = CHR ''+'' then parse_unsigned rest
          else parse_unsigned (c # rest))"

fun times1000 :: "jsnum \<Rightarrow> jsnum" where
  "times1000 NaN = NaN"
| "times1000 (Num n) = Num (n * 1000)"


section \<open>Throttle errors\<close>

text \<open>
  The \<open>catch\<close> block of \<open>executeTask\<close> looks for a retry advice in a 429 error:
  \<^verbatim>\<open>
  const retryInfo = error.errorDetails.find(d => d['@type'] && d['@type'].includes('RetryInfo'));
  if (retryInfo && retryInfo.retryDelay) {
    const retryDelaySec = retryInfo.retryDelay.replace('s', '');
    const retryDelayMs = parseInt(retryDelaySec) * 1000;
    if (retryDelayMs > 0) { ... }
  }
  \<close>
  \<open>find_retryInfo\<close> is the \<open>find\<close> call on an array (\<open>None\<close>: the callback threw).
\<close>

fun find_retryInfo :: "jsval list \<Rightarrow> jsval option" where
  "find_retryInfo [] = Some JUndef"
| "find_retryInfo (d # ds) =
     (case get_prop ''@type'' d of
        None \<Rightarrow> None
      | Some t \<Rightarrow>
          if \<not> truthy t then find_retryInfo ds
          else (case js_includes t ''RetryInfo'' of
                  None \<Rightarrow> None
                | Some True \<Rightarrow> Some d
                | Some False \<Rightarrow> find_retryInfo ds))"

text \<open>
  The three ways the inner \<open>try\<close> block can end: an exception (which the inner
  \<open>catch\<close> turns into the default cooldown), normal completion without a cooldown, and
  a cooldown of \<open>retryDelayMs\<close> milliseconds.
\<close>

datatype retry_parse = Threw | NoDelay | Delay int

definition parse_retry :: "jsval \<Rightarrow> retry_parse" where
  "parse_retry errorDetails =
     (case errorDetails of
        JArr ds \<Rightarrow>
          (case find_retryInfo ds of
             None \<Rightarrow> Threw
           | Some retryInfo \<Rightarrow>
               if \<not> truthy retryInfo then NoDelay
               else (case get_prop ''retryDelay'' retryInfo of
                       None \<Rightarrow> Threw
                     | Some retryDelay \<Rightarrow>
                         if \<not> truthy retryDelay then NoDelay
                         else (case retryDelay of
                                 JStr str \<Rightarrow>
                                   (let retryDelayMs =
                                          times1000 (parseInt (remove_first CHR ''s'' str))
                                    in if gt0 retryDelayMs then Delay (num_of retryDelayMs)
                                       else NoDelay)
                               | _ \<Rightarrow> Threw)))
      | _ \<Rightarrow> Threw)"

section \<open>The sliding-window dispatcher\<close>

text \<open>
  \<open>rpmControlledBatch(asyncFn, fnArgs, options = {})\<close> of src/AINaming/geminiCaller.mjs
  begins with
  \<^verbatim>\<open>
  const rpm = options.rpm || 10;
  const maxConcurrent = options.maxConcurrent || rpm;
  \<close>
  The third argument is absent (\<open>undefined\<close>, for which the default \<open>{}\<close> is taken),
  \<open>null\<close>, or an object. Its two fields are documented as numbers; a field is missing
  (\<open>None\<close>), NaN (what \<open>parseInt(process.env.BATCH_RPM)\<close> yields for a value that is not
  a number, as in src/unnamed/part_000) or an integer.
\<close>

record options =
  opt_rpm :: "jsnum option"
  opt_maxConcurrent :: "jsnum option"

datatype options_arg = OptionsAbsent | OptionsNull | OptionsObject options

text \<open>\<open>v || d\<close> for a numeric field: \<open>undefined\<close>, NaN and 0 are falsy and give \<open>d\<close>;
  every other number, negative ones too, is kept.\<close>

definition or_default :: "jsnum option \<Rightarrow> int \<Rightarrow> int" where
  "or_default v d =
     (case v of
        None \<Rightarrow> d
      | Some NaN \<Rightarrow> d
      | Some (Num n) \<Rightarrow> if n = 0 then d else n)"

text \<open>The constants of one call: \<open>rpm\<close>, \<open>maxConcurrent\<close> and the argument list.\<close>

record env =
  rpm :: int
  maxConcurrent :: int
  fnArgs :: "jsval list"

text \<open>The two lines above for an options object.\<close>

definition mk_env :: "jsval list \<Rightarrow> options \<Rightarrow> env" where
  "mk_env args opts =
     (let r = or_default (opt_rpm opts) 10 in
      \<lparr> rpm = r, maxConcurrent = or_default (opt_maxConcurrent opts) r, fnArgs = args \<rparr>)"

text \<open>
  The two lines for the argument as passed. With \<open>null\<close> the read \<open>options.rpm\<close>
  raises a TypeError: the function is \<open>async\<close>, so the promise it returns is rejected,
  and nothing after the first line has run (\<open>None\<close>).
\<close>

definition read_options :: "jsval list \<Rightarrow> options_arg \<Rightarrow> env option" where
  "read_options args arg =
     (case arg of
        OptionsAbsent \<Rightarrow> Some (mk_env args \<lparr>opt_rpm = None, opt_maxConcurrent = None\<rparr>)
      | OptionsNull \<Rightarrow> None
      | OptionsObject opts \<Rightarrow> Some (mk_env args opts))"

definition windowDuration :: int where
  "windowDuration = 60 * 1000"

text \<open>
  The callbacks that the function hands to \<open>setTimeout\<close>: \<open>processQueue\<close> (from
  \<open>completeTask\<close> and from \<open>processQueue\<close> itself), \<open>executeTask(i)\<close>, the
  continuation of \<open>acquireRateLimitSlot\<close> inside task \<open>i\<close> after its wait, and the
  continuation of the final polling loop.
\<close>

datatype callback = CbProcessQueue | CbExecuteTask nat | CbAcquire nat | CbPoll

text \<open>How an invocation of \<open>asyncFn\<close> settles: it resolves with a value, or it throws
  or rejects with one.\<close>

datatype outcome = Resolved jsval | Rejected jsval

text \<open>
  The state of one call. \<open>now\<close> is the clock read by \<open>Date.now()\<close>; \<open>timers\<close> holds
  the pending \<open>setTimeout\<close> callbacks with the instant they become due; \<open>calling\<close>
  holds the invocations of \<open>asyncFn\<close> that have not settled, with the arguments they
  were given; \<open>results\<close> is the array \<open>new Array(fnArgs.length)\<close>, a hole being
  \<open>None\<close>; \<open>returned\<close> is the array the call has returned, if it has.
  The last four fields are history, not program state: the instants at which a slot was
  recorded and \<open>asyncFn\<close> invoked, the settled invocations, the cooldowns injected by
  the \<open>catch\<close> block (the instant of the injection and the length of the cooldown), and
  the number of \<open>executeTask\<close> promises that were rejected (by a TypeError raised in the
  body of \<open>executeTask\<close> outside its \<open>try\<close> block, or inside its \<open>catch\<close> block).
  Nothing handles such a rejection: \<open>processQueue\<close> drops the promise
  (\<open>setTimeout(() => executeTask(taskIndex), 0)\<close>).
\<close>

record state =
  now :: int
  requestTimestamps :: "int list"
  taskQueue :: "nat list"
  results :: "jsval option list"
  activeTaskCount :: int
  processingQueue :: bool
  timers :: "(int \<times> callback) list"
  calling :: "(nat \<times> jsval list) list"
  returned :: "jsval option list option"
  started :: "(int \<times> nat) list"
  settled :: "(nat \<times> jsval list \<times> outcome) list"
  cooldowns :: "(int \<times> int) list"
  unhandled :: nat

text \<open>\<open>setTimeout(cb, delay)\<close>.\<close>

definition setTimeout :: "callback \<Rightarrow> int \<Rightarrow> state \<Rightarrow> state" where
  "setTimeout cb delay s = s\<lparr>timers := timers s @ [(now s + delay, cb)]\<rparr>"

text \<open>
  \<^verbatim>\<open>
  function getTimeUntilNextSlot() {
    const now = Date.now();
    requestTimestamps = requestTimestamps.filter(ts => now - ts < windowDuration);
    if (requestTimestamps.length < rpm) { return 0; }
    const oldestRequest = requestTimestamps[0];
    const waitTime = (oldestRequest + windowDuration) - now;
    return Math.max(0, waitTime + 100);
  }
  \<close>
  On an empty array \<open>requestTimestamps[0]\<close> is \<open>undefined\<close> and the result is NaN.
  \<open>slot_wait\<close> is the value computed, \<open>getTimeUntilNextSlot\<close> the call with its
  effect on the window.
\<close>

definition prune :: "int \<Rightarrow> int list \<Rightarrow> int list" where
  "prune t tss = filter (\<lambda>ts. t - ts < windowDuration) tss"

definition slot_wait :: "int \<Rightarrow> int \<Rightarrow> int list \<Rightarrow> jsnum" where
  "slot_wait r t tss =
     (let kept = prune t tss in
      if int (length kept) < r then Num 0
      else (case kept of
              [] \<Rightarrow> NaN
            | oldestRequest # _ \<Rightarrow>
                (let waitTime = (oldestRequest + windowDuration) - t
                 in Num (max 0 (waitTime + 100)))))"

definition getTimeUntilNextSlot :: "env \<Rightarrow> state \<Rightarrow> jsnum \<times> state" where
  "getTimeUntilNextSlot e s =
     (slot_wait (rpm e) (now s) (requestTimestamps s),
      s\<lparr>requestTimestamps := prune (now s) (requestTimestamps s)\<rparr>)"

text \<open>
  \<^verbatim>\<open>
  function completeTask() {
    activeTaskCount--;
    setTimeout(() => processQueue(), 50);
  }
  \<close>
\<close>

definition completeTask :: "state \<Rightarrow> state" where
  "completeTask s = setTimeout CbProcessQueue 50 (s\<lparr>activeTaskCount := activeTaskCount s - 1\<rparr>)"

text \<open>
  The loop of \<open>processQueue\<close>:
  \<^verbatim>\<open>
  while (activeTaskCount < maxConcurrent && taskQueue.length > 0) {
    const waitTime = getTimeUntilNextSlot();
    if (waitTime > 0) { setTimeout(() => processQueue(), waitTime); break; }
    const taskIndex = taskQueue.shift();
    if (taskIndex !== undefined) {
      activeTaskCount++;
      setTimeout(() => executeTask(taskIndex), 0);
    }
  }
  \<close>
  The queue is not empty where \<open>shift\<close> is called, so \<open>taskIndex\<close> is its head and
  never \<open>undefined\<close>.
\<close>

function processQueue_loop :: "env \<Rightarrow> state \<Rightarrow> state" where
  "processQueue_loop e s =
     (if activeTaskCount s < maxConcurrent e \<and> taskQueue s \<noteq> [] then
        (let (waitTime, s1) = getTimeUntilNextSlot e s in
         if gt0 waitTime then setTimeout CbProcessQueue (num_of waitTime) s1
         else processQueue_loop e
                (setTimeout (CbExecuteTask (hd (taskQueue s1))) 0
                   (s1\<lparr>taskQueue := tl (taskQueue s1),
                       activeTaskCount := activeTaskCount s1 + 1\<rparr>)))
      else s)"
  by pat_completeness auto
termination
  by (relation "measure (\<lambda>(e, s). length (taskQueue s))")
     (auto simp: getTimeUntilNextSlot_def setTimeout_def)

declare processQueue_loop.simps [simp del]

text \<open>
  \<^verbatim>\<open>
  async function processQueue() {
    if (processingQueue) return;
    processingQueue = true;
    try { ...loop... } finally { processingQueue = false; }
  }
  \<close>
  The body has no \<open>await\<close>: it runs to its end in one turn of the event loop.
\<close>

definition processQueue :: "env \<Rightarrow> state \<Rightarrow> state" where
  "processQueue e s =
     (if processingQueue s then s
      else (processQueue_loop e (s\<lparr>processingQueue := True\<rparr>))\<lparr>processingQueue := False\<rparr>)"


text \<open>
  \<^verbatim>\<open>
  async function acquireRateLimitSlot() {
    const waitTime = getTimeUntilNextSlot();
    if (waitTime > 0) {
      await new Promise(resolve => setTimeout(resolve, waitTime));
      return acquireRateLimitSlot();
    }
    const now = Date.now();
    requestTimestamps.push(now);
    requestTimestamps.sort((a, b) => a - b);
    return true;
  }
  \<close>
  Called inside task \<open>i\<close>. The result says whether the slot was recorded; if not, the
  task is suspended on a timer whose callback calls the function again.
\<close>

definition acquireRateLimitSlot :: "env \<Rightarrow> nat \<Rightarrow> state \<Rightarrow> bool \<times> state" where
  "acquireRateLimitSlot e i s =
     (let (waitTime, s1) = getTimeUntilNextSlot e s in
      if gt0 waitTime then (False, setTimeout (CbAcquire i) (num_of waitTime) s1)
      else (True, s1\<lparr>requestTimestamps := sort (requestTimestamps s1 @ [now s1])\<rparr>))"

text \<open>
  The \<open>try\<close> block of \<open>executeTask\<close> up to the invocation:
  \<open>await acquireRateLimitSlot(); results[taskIndex] = await asyncFn(...args)\<close>.
  Once the slot is recorded \<open>asyncFn\<close> is invoked in the same turn; the invocation is
  pending until it settles.
\<close>

definition run_task :: "env \<Rightarrow> nat \<Rightarrow> jsval list \<Rightarrow> state \<Rightarrow> state" where
  "run_task e i args s =
     (let (granted, s1) = acquireRateLimitSlot e i s in
      if granted
      then s1\<lparr>calling := calling s1 @ [(i, args)], started := started s1 @ [(now s1, i)]\<rparr>
      else s1)"

text \<open>The message of \<open>new Error(...)\<close> for a non-array argument tuple, as UTF-8 bytes.\<close>

definition args_error :: jsval where
  "args_error = JObj [(''message'', JStr
     [CHR 0xE4, CHR 0xBB, CHR 0xBB, CHR 0xE5, CHR 0x8A, CHR 0xA1, CHR 0xE5, CHR 0x8F, CHR 0x82,
      CHR 0xE6, CHR 0x95, CHR 0xB0, CHR 0xE5, CHR 0xBF, CHR 0x85, CHR 0xE9, CHR 0xA1, CHR 0xBB,
      CHR 0xE6, CHR 0x98, CHR 0xAF, CHR 0xE6, CHR 0x95, CHR 0xB0, CHR 0xE7, CHR 0xBB, CHR 0x84])]"

definition failure :: "jsval \<Rightarrow> jsval" where
  "failure err = JObj [(''error'', err)]"

text \<open>
  The conversion of a value to a string by a template literal (\<open>`${args}`\<close>), used by
  \<open>executeTask\<close> on an argument tuple that is not an array. It raises a TypeError for
  an object that has no callable \<open>toString\<close> or \<open>valueOf\<close> returning a primitive: an
  object of this datatype with an own \<open>toString\<close> property (no value of the datatype is
  callable, and the inherited \<open>valueOf\<close> returns the object itself). Every other
  non-array value converts: a plain object through the inherited \<open>toString\<close>.
\<close>

fun converts_to_string :: "jsval \<Rightarrow> bool" where
  "converts_to_string (JObj kvs) = (map_of kvs ''toString'' = None)"
| "converts_to_string v = True"

text \<open>
  \<^verbatim>\<open>
  async function executeTask(taskIndex) {
    if (taskIndex === undefined || taskIndex < 0 || taskIndex >= fnArgs.length) { return; }
    const args = fnArgs[taskIndex];
    if (!Array.isArray(args)) {
      console.error(`... ${args}`);
      results[taskIndex] = { error: new Error("...") };
      completeTask();
      return;
    }
    try { await acquireRateLimitSlot(); results[taskIndex] = await asyncFn(...args); }
    catch (error) { ... } finally { completeTask(); }
  }
  \<close>
  \<open>executeTask\<close> is the part that runs when the timer of the task fires,
  \<open>resume_acquire\<close> the part that runs when a wait inside \<open>acquireRateLimitSlot\<close>
  ends. When the argument tuple is not an array and its conversion to a string throws,
  the function ends there, before the result is written and before \<open>completeTask()\<close>:
  its promise is rejected.
\<close>

definition executeTask :: "env \<Rightarrow> nat \<Rightarrow> state \<Rightarrow> state" where
  "executeTask e i s =
     (if length (fnArgs e) \<le> i then s
      else (case fnArgs e ! i of
              JArr args \<Rightarrow> run_task e i args s
            | args \<Rightarrow>
                if converts_to_string args
                then completeTask (s\<lparr>results := (results s)[i := Some (failure args_error)]\<rparr>)
                else s\<lparr>unhandled := unhandled s + 1\<rparr>))"

definition resume_acquire :: "env \<Rightarrow> nat \<Rightarrow> state \<Rightarrow> state" where
  "resume_acquire e i s =
     (if length (fnArgs e) \<le> i then s
      else (case fnArgs e ! i of JArr args \<Rightarrow> run_task e i args s | _ \<Rightarrow> s))"

text \<open>
  The cooldown of the \<open>catch\<close> block: \<open>rpm\<close> copies of
  \<open>Date.now() - windowDuration + delay\<close> are pushed and the window is sorted.
\<close>

definition block_requests :: "env \<Rightarrow> int \<Rightarrow> state \<Rightarrow> state" where
  "block_requests e delay s =
     s\<lparr>requestTimestamps :=
          sort (requestTimestamps s @ replicate (nat (rpm e)) (now s - windowDuration + delay)),
        cooldowns := cooldowns s @ [(now s, delay)]\<rparr>"

text \<open>
  The \<open>catch\<close> block after \<open>results[taskIndex] = { error }\<close>:
  \<^verbatim>\<open>
  if (error.status === 429 && error.errorDetails) {
    try { ...retryDelayMs > 0: block for retryDelayMs... }
    catch (e) { ...block for 30000... }
  }
  \<close>
  When \<open>error\<close> is \<open>undefined\<close> or \<open>null\<close>, \<open>error.status\<close> raises a TypeError that
  leaves the \<open>catch\<close> block: the \<open>finally\<close> block still runs, then the promise of
  \<open>executeTask\<close> is rejected.
\<close>

definition on_error :: "env \<Rightarrow> jsval \<Rightarrow> state \<Rightarrow> state" where
  "on_error e err s =
     (case get_prop ''status'' err of
        None \<Rightarrow> s\<lparr>unhandled := unhandled s + 1\<rparr>
      | Some status \<Rightarrow>
          if status \<noteq> JNum 429 then s
          else (case get_prop ''errorDetails'' err of
                  None \<Rightarrow> s\<lparr>unhandled := unhandled s + 1\<rparr>
                | Some errorDetails \<Rightarrow>
                    if truthy errorDetails then
                      (case parse_retry errorDetails of
                         Delay retryDelayMs \<Rightarrow> block_requests e retryDelayMs s
                       | NoDelay \<Rightarrow> s
                       | Threw \<Rightarrow> block_requests e 30000 s)
                    else s))"

text \<open>What is stored in \<open>results[taskIndex]\<close> for an outcome.\<close>

fun stored :: "outcome \<Rightarrow> jsval" where
  "stored (Resolved v) = v"
| "stored (Rejected err) = failure err"

text \<open>
  The invocation of task \<open>i\<close> settles: the rest of the \<open>try\<close> block or the \<open>catch\<close>
  block runs, then \<open>finally { completeTask(); }\<close>. \<open>None\<close>: task \<open>i\<close> has no
  pending invocation.
\<close>

definition settle :: "env \<Rightarrow> nat \<Rightarrow> outcome \<Rightarrow> state \<Rightarrow> state option" where
  "settle e i out s =
     (case map_of (calling s) i of
        None \<Rightarrow> None
      | Some args \<Rightarrow>
          (let s1 = s\<lparr>calling := filter (\<lambda>c. fst c \<noteq> i) (calling s),
                      settled := settled s @ [(i, args, out)],
                      results := (results s)[i := Some (stored out)]\<rparr>
           in Some (completeTask
                     (case out of Resolved v \<Rightarrow> s1 | Rejected err \<Rightarrow> on_error e err s1))))"

text \<open>
  The end of \<open>rpmControlledBatch\<close>:
  \<^verbatim>\<open>
  while (activeTaskCount > 0 || taskQueue.length > 0) {
    await new Promise(resolve => setTimeout(resolve, 100));
  }
  return results;
  \<close>
\<close>

definition poll :: "state \<Rightarrow> state" where
  "poll s =
     (if 0 < activeTaskCount s \<or> taskQueue s \<noteq> [] then setTimeout CbPoll 100 s
      else s\<lparr>returned := Some (results s)\<rparr>)"

text \<open>
  The synchronous part of the call, made at instant \<open>t0\<close>: the initial state, the first
  \<open>processQueue()\<close>, and the first test of the polling loop.
\<close>

definition initial :: "env \<Rightarrow> int \<Rightarrow> state" where
  "initial e t0 =
     \<lparr> now = t0, requestTimestamps = [], taskQueue = [0 ..< length (fnArgs e)],
       results = replicate (length (fnArgs e)) None, activeTaskCount = 0,
       processingQueue = False, timers = [], calling = [], returned = None,
       started = [], settled = [], cooldowns = [], unhandled = 0 \<rparr>"

definition rpmControlledBatch :: "env \<Rightarrow> int \<Rightarrow> state" where
  "rpmControlledBatch e t0 = poll (processQueue e (initial e t0))"

subsection \<open>The event loop\<close>

text \<open>
  Everything after the synchronous part is driven by the host: the clock advances, a
  timer that is due fires, a pending invocation of \<open>asyncFn\<close> settles with an outcome
  chosen by the task function. An execution is a list of such events. A timer may fire at
  any instant from its due time on, and due timers may fire in any order, which covers
  every order a host can choose. A callback runs to its end at one reading of the clock:
  the clock advances between the turns of the event loop only. An invocation may settle
  in the turn that made it (an \<open>asyncFn\<close> that throws at once): no \<open>Advance\<close> lies
  between the two events then. \<open>turn\<close> is \<open>None\<close> when the event cannot happen in the
  state: the timer does not exist or is not due, or the task has no pending invocation.
\<close>

datatype event = Advance nat | Fire nat | Settle nat outcome

fun run_callback :: "env \<Rightarrow> callback \<Rightarrow> state \<Rightarrow> state" where
  "run_callback e CbProcessQueue s = processQueue e s"
| "run_callback e (CbExecuteTask i) s = executeTask e i s"
| "run_callback e (CbAcquire i) s = resume_acquire e i s"
| "run_callback e CbPoll s = poll s"

definition fire :: "env \<Rightarrow> nat \<Rightarrow> state \<Rightarrow> state option" where
  "fire e k s =
     (if k < length (timers s) \<and> fst (timers s ! k) \<le> now s
      then Some (run_callback e (snd (timers s ! k))
                   (s\<lparr>timers := take k (timers s) @ drop (Suc k) (timers s)\<rparr>))
      else None)"

fun turn :: "env \<Rightarrow> event \<Rightarrow> state \<Rightarrow> state option" where
  "turn e (Advance d) s = Some (s\<lparr>now := now s + int d\<rparr>)"
| "turn e (Fire k) s = fire e k s"
| "turn e (Settle i out) s = settle e i out s"

text \<open>
  The host is Node.js (the module reads \<open>process.env\<close> and the file system). There a
  promise rejected with no handler ends the process once the turn that rejected it is
  over: after a rejected \<open>executeTask\<close> no event happens any more, no timer fires, and
  the promise of \<open>rpmControlledBatch\<close> is never settled.
\<close>

definition step :: "env \<Rightarrow> event \<Rightarrow> state \<Rightarrow> state option" where
  "step e ev s = (if unhandled s = 0 then turn e ev s else None)"

fun exec :: "env \<Rightarrow> event list \<Rightarrow> state \<Rightarrow> state option" where
  "exec e [] s = Some s"
| "exec e (ev # evs) s = (case step e ev s of None \<Rightarrow> None | Some s' \<Rightarrow> exec e evs s')"

text \<open>
  The call as a whole, made at instant \<open>t0\<close>: \<open>None\<close> when reading the options throws,
  otherwise the state in which the synchronous part leaves the dispatcher.
\<close>

definition rpmControlledBatch_call :: "jsval list \<Rightarrow> options_arg \<Rightarrow> int \<Rightarrow> state option" where
  "rpmControlledBatch_call args arg t0 =
     (case read_options args arg of
        None \<Rightarrow> None
      | Some e \<Rightarrow> Some (rpmControlledBatch e t0))"

section \<open>The fixed-bucket dispatcher\<close>

text \<open>
  The other \<open>rpmControlledBatch\<close> of the repository (src/unnamed/part_000, lines
  309 to 404) counts the requests of a fixed window instead of keeping their timestamps:
  \<^verbatim>\<open>
  let requestsInWindow = 0;
  let windowStartTime = Date.now();
  const taskQueue = Array.from({ length: fnArgs.length }, (_, i) => i);
  const results = new Array(fnArgs.length);
  const executing = new Set();
  \<close>
  Its options are read in the same way (\<open>read_options\<close>). Its only timers are the wait
  of a task for the next window and the polling loop. \<open>fb_unhandled\<close> counts the
  \<open>executeTask\<close> promises that were rejected; none of them is handled.
\<close>

datatype fb_callback = FbResume nat | FbPoll

record fb_state =
  fb_now :: int
  requestsInWindow :: int
  windowStartTime :: int
  fb_taskQueue :: "nat list"
  fb_results :: "jsval option list"
  executing :: "nat set"
  fb_timers :: "(int \<times> fb_callback) list"
  fb_calling :: "(nat \<times> jsval list) list"
  fb_returned :: "jsval option list option"
  fb_started :: "(int \<times> nat) list"
  fb_unhandled :: nat

text \<open>
  \<open>requestsInWindow++\<close> followed by the invocation
  \<open>results[taskIndex] = await asyncFn(...args)\<close>.
\<close>

definition fb_invoke :: "nat \<Rightarrow> jsval list \<Rightarrow> fb_state \<Rightarrow> fb_state" where
  "fb_invoke i args s =
     s\<lparr>requestsInWindow := requestsInWindow s + 1,
       fb_calling := fb_calling s @ [(i, args)],
       fb_started := fb_started s @ [(fb_now s, i)]\<rparr>"

text \<open>
  \<^verbatim>\<open>
  const now = Date.now();
  const timeElapsed = now - windowStartTime;
  if (timeElapsed >= windowDuration) {
    windowStartTime = now;
    requestsInWindow = 0;
  } else if (requestsInWindow >= rpm) {
    const waitTime = windowDuration - timeElapsed;
    await new Promise(resolve => setTimeout(resolve, waitTime));
    windowStartTime = Date.now();
    requestsInWindow = 0;
  }
  requestsInWindow++;
  \<close>
  \<open>fb_limit\<close> runs up to the \<open>await\<close>, \<open>fb_resume\<close> from it.
\<close>

definition fb_limit :: "env \<Rightarrow> nat \<Rightarrow> jsval list \<Rightarrow> fb_state \<Rightarrow> fb_state" where
  "fb_limit e i args s =
     (let timeElapsed = fb_now s - windowStartTime s in
      if windowDuration \<le> timeElapsed
      then fb_invoke i args (s\<lparr>windowStartTime := fb_now s, requestsInWindow := 0\<rparr>)
      else if rpm e \<le> requestsInWindow s
      then s\<lparr>fb_timers := fb_timers s @ [(fb_now s + (windowDuration - timeElapsed), FbResume i)]\<rparr>
      else fb_invoke i args s)"

definition fb_resume :: "env \<Rightarrow> nat \<Rightarrow> fb_state \<Rightarrow> fb_state" where
  "fb_resume e i s =
     (if length (fnArgs e) \<le> i then s
      else (case fnArgs e ! i of
              JArr args \<Rightarrow> fb_invoke i args (s\<lparr>windowStartTime := fb_now s, requestsInWindow := 0\<rparr>)
            | _ \<Rightarrow> s))"

text \<open>
  \<open>executeTask(taskIndex)\<close> up to its first \<open>await\<close>. A task whose arguments are not
  an array is failed at once and the next task of the queue is executed in the same turn:
  \<^verbatim>\<open>
  if (!Array.isArray(args)) {
    console.error(`... ${args}`);
    results[taskIndex] = { error: new Error("...") };
    executing.delete(taskIndex);
    const nextIndex = taskQueue.shift();
    if (nextIndex !== undefined) { executing.add(nextIndex); executeTask(nextIndex); }
    return;
  }
  \<close>
  When the conversion of the arguments to a string throws, the function ends at the first
  line and its promise is rejected.
\<close>

function fb_executeTask :: "env \<Rightarrow> nat \<Rightarrow> fb_state \<Rightarrow> fb_state" where
  "fb_executeTask e i s =
     (if length (fnArgs e) \<le> i then s
      else (case fnArgs e ! i of
              JArr args \<Rightarrow> fb_limit e i args s
            | args \<Rightarrow>
                if \<not> converts_to_string args then s\<lparr>fb_unhandled := fb_unhandled s + 1\<rparr>
                else
                  (let s1 = s\<lparr>fb_results := (fb_results s)[i := Some (failure args_error)],
                              executing := executing s - {i}\<rparr>
                   in case fb_taskQueue s1 of
                        [] \<Rightarrow> s1
                      | nextIndex # q \<Rightarrow>
                          fb_executeTask e nextIndex
                            (s1\<lparr>fb_taskQueue := q,
                                executing := insert nextIndex (executing s1)\<rparr>))))"
  by pat_completeness auto
termination
  by (relation "measure (\<lambda>(e, i, s). length (fb_taskQueue s))") auto

declare fb_executeTask.simps [simp del]

text \<open>
  The invocation of task \<open>i\<close> settles; the \<open>finally\<close> block frees the task and
  executes the next one of the queue:
  \<^verbatim>\<open>
  try { results[taskIndex] = await asyncFn(...args); }
  catch (error) { results[taskIndex] = { error }; }
  finally {
    executing.delete(taskIndex);
    const nextIndex = taskQueue.shift();
    if (nextIndex !== undefined) { executing.add(nextIndex); executeTask(nextIndex); }
  }
  \<close>
\<close>

definition fb_settle :: "env \<Rightarrow> nat \<Rightarrow> outcome \<Rightarrow> fb_state \<Rightarrow> fb_state option" where
  "fb_settle e i out s =
     (case map_of (fb_calling s) i of
        None \<Rightarrow> None
      | Some args \<Rightarrow>
          (let s1 = s\<lparr>fb_calling := filter (\<lambda>c. fst c \<noteq> i) (fb_calling s),
                      fb_results := (fb_results s)[i := Some (stored out)],
                      executing := executing s - {i}\<rparr>
           in case fb_taskQueue s1 of
                [] \<Rightarrow> Some s1
              | nextIndex # q \<Rightarrow>
                  Some (fb_executeTask e nextIndex
                          (s1\<lparr>fb_taskQueue := q,
                              executing := insert nextIndex (executing s1)\<rparr>))))"

text \<open>
  The initial batch:
  \<^verbatim>\<open>
  const initialBatchSize = Math.min(maxConcurrent, taskQueue.length);
  for (let i = 0; i < initialBatchSize; i++) {
    const taskIndex = taskQueue.shift();
    if (taskIndex !== undefined) { executing.add(taskIndex); executeTask(taskIndex); }
  }
  \<close>
\<close>

fun fb_launch :: "env \<Rightarrow> nat \<Rightarrow> fb_state \<Rightarrow> fb_state" where
  "fb_launch e 0 s = s"
| "fb_launch e (Suc n) s =
     (case fb_taskQueue s of
        [] \<Rightarrow> fb_launch e n s
      | taskIndex # q \<Rightarrow>
          fb_launch e n
            (fb_executeTask e taskIndex
               (s\<lparr>fb_taskQueue := q, executing := insert taskIndex (executing s)\<rparr>)))"

text \<open>
  \<^verbatim>\<open>
  while (executing.size > 0) { await new Promise(resolve => setTimeout(resolve, 100)); }
  return results;
  \<close>
\<close>

definition fb_poll :: "fb_state \<Rightarrow> fb_state" where
  "fb_poll s =
     (if executing s \<noteq> {} then s\<lparr>fb_timers := fb_timers s @ [(fb_now s + 100, FbPoll)]\<rparr>
      else s\<lparr>fb_returned := Some (fb_results s)\<rparr>)"

definition fb_initial :: "env \<Rightarrow> int \<Rightarrow> fb_state" where
  "fb_initial e t0 =
     \<lparr> fb_now = t0, requestsInWindow = 0, windowStartTime = t0,
       fb_taskQueue = [0 ..< length (fnArgs e)],
       fb_results = replicate (length (fnArgs e)) None, executing = {},
       fb_timers = [], fb_calling = [], fb_returned = None, fb_started = [],
       fb_unhandled = 0 \<rparr>"

definition fb_rpmControlledBatch :: "env \<Rightarrow> int \<Rightarrow> fb_state" where
  "fb_rpmControlledBatch e t0 =
     fb_poll (fb_launch e (nat (min (maxConcurrent e) (int (length (fnArgs e)))))
                (fb_initial e t0))"

fun fb_run_callback :: "env \<Rightarrow> fb_callback \<Rightarrow> fb_state \<Rightarrow> fb_state" where
  "fb_run_callback e (FbResume i) s = fb_resume e i s"
| "fb_run_callback e FbPoll s = fb_poll s"

definition fb_fire :: "env \<Rightarrow> nat \<Rightarrow> fb_state \<Rightarrow> fb_state option" where
  "fb_fire e k s =
     (if k < length (fb_timers s) \<and> fst (fb_timers s ! k) \<le> fb_now s
      then Some (fb_run_callback e (snd (fb_timers s ! k))
                   (s\<lparr>fb_timers := take k (fb_timers s) @ drop (Suc k) (fb_timers s)\<rparr>))
      else None)"

fun fb_turn :: "env \<Rightarrow> event \<Rightarrow> fb_state \<Rightarrow> fb_state option" where
  "fb_turn e (Advance d) s = Some (s\<lparr>fb_now := fb_now s + int d\<rparr>)"
| "fb_turn e (Fire k) s = fb_fire e k s"
| "fb_turn e (Settle i out) s = fb_settle e i out s"

definition fb_step :: "env \<Rightarrow> event \<Rightarrow> fb_state \<Rightarrow> fb_state option" where
  "fb_step e ev s = (if fb_unhandled s = 0 then fb_turn e ev s else None)"

fun fb_exec :: "env \<Rightarrow> event list \<Rightarrow> fb_state \<Rightarrow> fb_state option" where
  "fb_exec e [] s = Some s"
| "fb_exec e (ev # evs) s =
     (case fb_step e ev s of None \<Rightarrow> None | Some s' \<Rightarrow> fb_exec e evs s')"

section \<open>What the claims observe\<close>

text \<open>
  The number of starts (a slot recorded and \<open>asyncFn\<close> invoked) in the trailing window
  \<open>(T - 60000, T]\<close>.
\<close>

definition starts_in :: "int \<Rightarrow> state \<Rightarrow> nat" where
  "starts_in T s =
     length (filter (\<lambda>p. T - windowDuration < fst p \<and> fst p \<le> T) (started s))"

definition fb_starts_in :: "int \<Rightarrow> fb_state \<Rightarrow> nat" where
  "fb_starts_in T s =
     length (filter (\<lambda>p. T - windowDuration < fst p \<and> fst p \<le> T) (fb_started s))"

text \<open>The timestamps of the window that count as active at the current instant: those that
  pruning would keep.\<close>

definition active_timestamps :: "state \<Rightarrow> nat" where
  "active_timestamps s = length (prune (now s) (requestTimestamps s))"

text \<open>
  The contract of the rate window tracker as the specification words it: drop the
  timestamps that are 60 s old or older; with fewer than \<open>rpm\<close> left the wait is 0,
  otherwise it is \<open>(oldest remaining + 60 s) - now\<close> plus 100 ms, not below 0. The result
  is the remaining window and the wait.
\<close>

definition timeUntilNextSlot_spec :: "int \<Rightarrow> int \<Rightarrow> int list \<Rightarrow> int list \<times> int" where
  "timeUntilNextSlot_spec r t window =
     (let remaining = filter (\<lambda>ts. \<not> (60000 \<le> t - ts)) window in
      (remaining,
       if int (length remaining) < r then 0
       else max 0 ((Min (set remaining) + 60000) - t + 100)))"

text \<open>
  What entry \<open>i\<close> of the results must be, given the settled invocations: for an array
  \<open>fnArgs[i]\<close> the stored form of the outcome of an invocation made for task \<open>i\<close>
  with the elements of \<open>fnArgs[i]\<close>; for anything else the argument error.
\<close>

definition expected :: "env \<Rightarrow> (nat \<times> jsval list \<times> outcome) list \<Rightarrow> nat \<Rightarrow> jsval \<Rightarrow> bool" where
  "expected e st i r =
     (case fnArgs e ! i of
        JArr a \<Rightarrow> (\<exists>out. (i, a, out) \<in> set st \<and> r = stored out)
      | _ \<Rightarrow> r = failure args_error)"

section \<open>Invariants of the event loop\<close>

text \<open>
  One run of the loop of \<open>processQueue\<close> in closed form: the window is pruned, and
  either one timer is set or \<open>admit_count\<close> tasks are admitted.
\<close>

definition admit_count :: "env \<Rightarrow> state \<Rightarrow> nat" where
  "admit_count e s = min (length (taskQueue s)) (nat (maxConcurrent e - activeTaskCount s))"

definition admit :: "nat \<Rightarrow> state \<Rightarrow> state" where
  "admit n s =
     s\<lparr>taskQueue := drop n (taskQueue s),
       activeTaskCount := activeTaskCount s + int n,
       timers := timers s @ map (\<lambda>i. (now s, CbExecuteTask i)) (take n (taskQueue s))\<rparr>"

definition pruned :: "state \<Rightarrow> state" where
  "pruned s = s\<lparr>requestTimestamps := prune (now s) (requestTimestamps s)\<rparr>"

text \<open>
  The tasks between admission and completion: those whose \<open>executeTask\<close> timer or
  slot wait is pending, and those whose invocation is pending.
\<close>

fun cb_task :: "callback \<Rightarrow> nat multiset" where
  "cb_task (CbExecuteTask i) = {#i#}"
| "cb_task (CbAcquire i) = {#i#}"
| "cb_task CbProcessQueue = {#}"
| "cb_task CbPoll = {#}"

definition timer_tasks :: "(int \<times> callback) list \<Rightarrow> nat multiset" where
  "timer_tasks tm = sum_list (map (\<lambda>p. cb_task (snd p)) tm)"

definition pending :: "state \<Rightarrow> nat multiset" where
  "pending s = timer_tasks (timers s) + mset (map fst (calling s))"

text \<open>
  The structural invariant. With \<open>P\<close> the multiset of tasks in progress: the queue is a
  suffix \<open>[k ..< N]\<close> of the indices, the counter is the size of \<open>P\<close>, no task is in
  progress twice, the tasks in progress were admitted, and a result is a hole exactly for
  the tasks in progress and those still queued. \<open>struct_gen e H s\<close> states it for the
  tasks pending in \<open>s\<close> together with the tasks \<open>H\<close> that the running callback holds.
  Between two turns \<open>H\<close> is empty, unless an \<open>executeTask\<close> was rejected before it
  completed its task (\<open>struct_inv\<close>, defined below).
\<close>

definition core :: "env \<Rightarrow> nat multiset \<Rightarrow> nat list \<Rightarrow> jsval option list \<Rightarrow> int \<Rightarrow> bool" where
  "core e P q rs a \<longleftrightarrow>
     length q \<le> length (fnArgs e) \<and>
     q = [length (fnArgs e) - length q ..< length (fnArgs e)] \<and>
     length rs = length (fnArgs e) \<and>
     a = int (size P) \<and>
     (\<forall>i. count P i \<le> 1) \<and>
     (\<forall>i. i \<in># P \<longrightarrow> i < length (fnArgs e) - length q) \<and>
     (\<forall>i < length (fnArgs e). rs ! i = None \<longleftrightarrow> (i \<in># P \<or> length (fnArgs e) - length q \<le> i))"

definition acquire_ok :: "env \<Rightarrow> (int \<times> callback) list \<Rightarrow> bool" where
  "acquire_ok e tm \<longleftrightarrow> (\<forall>d i. (d, CbAcquire i) \<in> set tm \<longrightarrow> (\<exists>a. fnArgs e ! i = JArr a))"

definition calling_ok :: "env \<Rightarrow> (nat \<times> jsval list) list \<Rightarrow> bool" where
  "calling_ok e cs \<longleftrightarrow> (\<forall>i a. (i, a) \<in> set cs \<longrightarrow> fnArgs e ! i = JArr a)"

definition struct_gen :: "env \<Rightarrow> nat multiset \<Rightarrow> state \<Rightarrow> bool" where
  "struct_gen e H s \<longleftrightarrow>
     core e (pending s + H) (taskQueue s) (results s) (activeTaskCount s) \<and>
     acquire_ok e (timers s) \<and> calling_ok e (calling s) \<and> \<not> processingQueue s"

text \<open>
  The rate invariant: no start lies in the future, the starts still inside the window
  are among the timestamps of the window, and every trailing window holds at most \<open>b\<close>
  starts.
\<close>

definition rate_ok :: "int \<Rightarrow> int \<Rightarrow> int list \<Rightarrow> int list \<Rightarrow> bool" where
  "rate_ok b t tss sts \<longleftrightarrow>
     (\<forall>x \<in> set sts. x \<le> t) \<and>
     mset (filter (\<lambda>x. t - x < windowDuration) sts) \<subseteq># mset tss \<and>
     (\<forall>T. int (length (filter (\<lambda>x. T - windowDuration < x \<and> x \<le> T) sts)) \<le> b)"

definition rate_inv :: "env \<Rightarrow> state \<Rightarrow> bool" where
  "rate_inv e s \<longleftrightarrow>
     rate_ok (max 1 (rpm e)) (now s) (requestTimestamps s) (map fst (started s))"

text \<open>
  The cooldown invariant: every injected cooldown \<open>(c, d)\<close> has \<open>d > 0\<close>, no start
  lies strictly between \<open>c\<close> and \<open>c + d\<close>, and until \<open>c + d\<close> the window holds
  \<open>rpm\<close> copies of its blocking timestamp.
\<close>

definition cooled :: "env \<Rightarrow> int \<Rightarrow> int list \<Rightarrow> (int \<times> nat) list \<Rightarrow> (int \<times> int) list \<Rightarrow> bool" where
  "cooled e t tss sts cs \<longleftrightarrow>
     (\<forall>p \<in> set sts. fst p \<le> t) \<and>
     (\<forall>c \<in> set cs. fst c \<le> t \<and> 0 < snd c \<and>
        (\<forall>p \<in> set sts. fst p \<le> fst c \<or> fst c + snd c \<le> fst p) \<and>
        (t < fst c + snd c \<longrightarrow>
           nat (rpm e) \<le> count (mset tss) (fst c - windowDuration + snd c)))"

text \<open>
  The results hold what was settled, no task settles twice, and once the call has returned
  nothing is in progress and the returned array is the results array.
\<close>

definition res_ok :: "env \<Rightarrow> jsval option list \<Rightarrow> (nat \<times> jsval list \<times> outcome) list \<Rightarrow> bool" where
  "res_ok e rs st \<longleftrightarrow>
     (\<forall>i < length (fnArgs e). \<forall>r. rs ! i = Some r \<longrightarrow> expected e st i r) \<and>
     distinct (map fst st) \<and>
     (\<forall>i \<in> fst ` set st. i < length (fnArgs e) \<and> rs ! i \<noteq> None)"

definition ret_ok :: "state \<Rightarrow> bool" where
  "ret_ok s \<longleftrightarrow>
     (\<forall>rs. returned s = Some rs \<longrightarrow> rs = results s \<and> activeTaskCount s = 0 \<and> taskQueue s = [])"

definition struct_inv :: "env \<Rightarrow> state \<Rightarrow> bool" where
  "struct_inv e s \<longleftrightarrow> (\<exists>H. struct_gen e H s \<and> (unhandled s = 0 \<longrightarrow> H = {#}))"

definition good :: "env \<Rightarrow> state \<Rightarrow> bool" where
  "good e s \<longleftrightarrow> struct_inv e s \<and> res_ok e (results s) (settled s) \<and> ret_ok s"

text \<open>
  No lost wake-up: while the call has not returned the polling timer is pending, and while
  tasks are queued and none is in progress a \<open>processQueue\<close> timer is pending.
  \<open>remaining\<close> counts the tasks not yet completed; at instant \<open>horizon\<close> every pending
  timer is due and every timestamp has left the window.
\<close>

definition live_inv :: "state \<Rightarrow> bool" where
  "live_inv s \<longleftrightarrow>
     (returned s = None \<longrightarrow> CbPoll \<in> snd ` set (timers s)) \<and>
     (taskQueue s \<noteq> [] \<and> activeTaskCount s = 0 \<longrightarrow> CbProcessQueue \<in> snd ` set (timers s))"

definition remaining :: "state \<Rightarrow> nat" where
  "remaining s = length (taskQueue s) + nat (activeTaskCount s)"

definition horizon :: "state \<Rightarrow> int" where
  "horizon s =
     fold max (map fst (timers s) @ map (\<lambda>t. t + windowDuration) (requestTimestamps s)) (now s)"

definition ready :: "env \<Rightarrow> state \<Rightarrow> bool" where
  "ready e s \<longleftrightarrow> good e s \<and> live_inv s"

section \<open>Example executions\<close>

text \<open>Three tasks with \<open>rpm = 2\<close>: two start at 0, the third after the window has moved.\<close>

definition e2 :: env where
  "e2 = mk_env [JArr [], JArr [], JArr []]
          \<lparr>opt_rpm = Some (Num 2), opt_maxConcurrent = Some (Num 3)\<rparr>"

definition evs2 :: "event list" where
  "evs2 = [Fire 0, Fire 0, Fire 0, Settle 0 (Resolved JNull), Advance 60100, Fire 1]"

definition evs7 :: "event list" where
  "evs7 = [Fire 0, Fire 0, Fire 0]"

text \<open>A batch with a non-array argument tuple and a rejected task, run until the call returns.\<close>

definition e1 :: env where
  "e1 = mk_env [JArr [JStr ''a''], JNum 5, JArr [JStr ''c'']]
          \<lparr>opt_rpm = Some (Num 5), opt_maxConcurrent = Some (Num 2)\<rparr>"

definition evs1 :: "event list" where
  "evs1 = [Fire 0, Fire 0, Advance 20, Settle 0 (Resolved (JStr ''A'')), Advance 50, Fire 1,
           Fire 2, Fire 1, Advance 30, Fire 0, Settle 2 (Rejected (JStr ''boom'')),
           Advance 100, Fire 0]"

definition evs3 :: "event list" where
  "evs3 = [Fire 0, Fire 0]"

text \<open>Throttle errors: a 429 with a \<open>RetryInfo\<close> entry, and one with a \<open>QuotaFailure\<close> entry only.\<close>

definition throttle_error :: "string \<Rightarrow> jsval" where
  "throttle_error d =
     JObj [(''status'', JNum 429),
           (''errorDetails'',
            JArr [JObj [(''@type'', JStr ''type.googleapis.com/google.rpc.RetryInfo''),
                        (''retryDelay'', JStr d)]])]"

definition quota_error :: jsval where
  "quota_error =
     JObj [(''status'', JNum 429),
           (''errorDetails'',
            JArr [JObj [(''@type'', JStr ''type.googleapis.com/google.rpc.QuotaFailure'')]])]"

definition e6 :: env where
  "e6 = mk_env [JArr []] \<lparr>opt_rpm = Some (Num 1), opt_maxConcurrent = None\<rparr>"

definition evs6 :: "event list" where
  "evs6 = [Fire 0, Advance 10, Settle 0 (Rejected (throttle_error ''5s''))]"

definition e5 :: env where
  "e5 = mk_env [JArr [], JArr []] \<lparr>opt_rpm = Some (Num 2), opt_maxConcurrent = Some (Num 1)\<rparr>"

definition evs5 :: "jsval \<Rightarrow> event list" where
  "evs5 err = [Fire 0, Advance 10, Settle 0 (Rejected err), Advance 50, Fire 1]"

text \<open>A negative \<open>rpm\<close>.\<close>

definition e8 :: env where
  "e8 = mk_env [JArr []] \<lparr>opt_rpm = Some (Num (- 3)), opt_maxConcurrent = Some (Num 1)\<rparr>"

definition evs8 :: "event list" where
  "evs8 = [Fire 0, Settle 0 (Resolved (JStr ''ok'')), Advance 100, Fire 0]"

text \<open>
  The fixed-bucket variant with \<open>rpm = 1\<close> and four tasks admitted at once: the first
  starts at 0, the other three wait for the end of the bucket.
\<close>

definition e9 :: env where
  "e9 = mk_env [JArr [], JArr [], JArr [], JArr []]
          \<lparr>opt_rpm = Some (Num 1), opt_maxConcurrent = Some (Num 4)\<rparr>"

definition evs9 :: "event list" where
  "evs9 = [Advance 60000, Fire 0, Fire 0, Fire 0]"

text \<open>
  The same for any \<open>rpm = r\<close> and any number \<open>n\<close> of waiting tasks: \<open>r + n\<close> tasks
  with \<open>maxConcurrent = r + n\<close>; the clock moves to the end of the bucket and the \<open>n\<close>
  waits end one after the other.
\<close>

definition burst_env :: "int \<Rightarrow> nat \<Rightarrow> env" where
  "burst_env r n =
     mk_env (replicate (nat r + n) (JArr []))
       \<lparr>opt_rpm = Some (Num r), opt_maxConcurrent = Some (Num (r + int n))\<rparr>"

definition burst_schedule :: "nat \<Rightarrow> event list" where
  "burst_schedule n = Advance 60000 # replicate n (Fire 0)"

text \<open>
  Two tasks, one at a time; the invocation of the first is rejected with \<open>undefined\<close>
  (\<open>Promise.reject()\<close>, or \<open>throw undefined\<close>) 10 ms after its start.
\<close>

definition e4 :: env where
  "e4 = mk_env [JArr [JStr ''a''], JArr [JStr ''b'']]
          \<lparr>opt_rpm = Some (Num 5), opt_maxConcurrent = Some (Num 1)\<rparr>"

definition evs4 :: "event list" where
  "evs4 = [Fire 0, Advance 10, Settle 0 (Rejected JUndef)]"

text \<open>
  Two tasks, one at a time; the argument tuple of the first is the object
  \<open>{toString: null}\<close>, which is not an array and has no conversion to a string.
\<close>

definition e3 :: env where
  "e3 = mk_env [JObj [(''toString'', JNull)], JArr [JStr ''b'']]
          \<lparr>opt_rpm = Some (Num 5), opt_maxConcurrent = Some (Num 1)\<rparr>"

section \<open>The loop of processQueue in closed form\<close>

lemma prune_idem: "prune t (prune t tss) = prune t tss"
  by (simp add: prune_def)

lemma slot_wait_prune: "slot_wait r t (prune t tss) = slot_wait r t tss"
  by (simp add: slot_wait_def prune_idem)

lemma sorted_prune: "sorted tss \<Longrightarrow> sorted (prune t tss)"
  by (simp add: prune_def sorted_wrt_filter)

lemma admit_admit: "admit m (admit n s) = admit (n + m) s"
proof -
  have 1: "take (n + m) (taskQueue s) = take n (taskQueue s) @ take m (drop n (taskQueue s))"
    by (rule take_add)
  have 2: "drop m (drop n (taskQueue s)) = drop (n + m) (taskQueue s)"
    by (simp add: add.commute)
  show ?thesis unfolding admit_def by (simp add: 1 2 del: drop_drop)
qed

lemma pruned_admit: "pruned (admit n s) = admit n (pruned s)"
  by (simp add: admit_def pruned_def)

lemma pruned_idem: "pruned (pruned s) = pruned s"
  by (simp add: pruned_def prune_idem)

lemma processQueue_loop_closed:
  "processQueue_loop e s =
     (if activeTaskCount s < maxConcurrent e \<and> taskQueue s \<noteq> [] then
        (if gt0 (slot_wait (rpm e) (now s) (requestTimestamps s))
         then setTimeout CbProcessQueue (num_of (slot_wait (rpm e) (now s) (requestTimestamps s))) (pruned s)
         else admit (admit_count e s) (pruned s))
      else s)"
proof (induction e s rule: processQueue_loop.induct)
  case (1 e s)
  show ?case
  proof (cases "activeTaskCount s < maxConcurrent e \<and> taskQueue s \<noteq> []")
    case False
    then show ?thesis by (auto simp: processQueue_loop.simps[of e s])
  next
    case guard: True
    show ?thesis
    proof (cases "gt0 (slot_wait (rpm e) (now s) (requestTimestamps s))")
      case True
      with guard show ?thesis
        by (simp add: processQueue_loop.simps[of e s] getTimeUntilNextSlot_def pruned_def)
    next
      case False
      obtain i q where q: "taskQueue s = i # q" using guard by (cases "taskQueue s") auto
      define s2 where "s2 = setTimeout (CbExecuteTask i) 0
                   ((pruned s)\<lparr>taskQueue := q,
                       activeTaskCount := activeTaskCount s + 1\<rparr>)"
      have unfold: "processQueue_loop e s = processQueue_loop e s2"
        using guard False q
        by (simp add: processQueue_loop.simps[of e s] getTimeUntilNextSlot_def pruned_def s2_def)
      have IH: "processQueue_loop e s2 =
     (if activeTaskCount s2 < maxConcurrent e \<and> taskQueue s2 \<noteq> [] then
        (if gt0 (slot_wait (rpm e) (now s2) (requestTimestamps s2))
         then setTimeout CbProcessQueue (num_of (slot_wait (rpm e) (now s2) (requestTimestamps s2))) (pruned s2)
         else admit (admit_count e s2) (pruned s2))
      else s2)"
        using "1.IH"[of "getTimeUntilNextSlot e s" "fst (getTimeUntilNextSlot e s)" "snd (getTimeUntilNextSlot e s)"] guard False q
        by (simp add: getTimeUntilNextSlot_def pruned_def s2_def)
      have w2: "slot_wait (rpm e) (now s2) (requestTimestamps s2) = slot_wait (rpm e) (now s) (requestTimestamps s)"
        by (simp add: s2_def setTimeout_def pruned_def slot_wait_prune)
      have s2_1: "s2 = admit 1 (pruned s)"
        using q by (simp add: s2_def admit_def setTimeout_def pruned_def)
      show ?thesis
      proof (cases "activeTaskCount s2 < maxConcurrent e \<and> taskQueue s2 \<noteq> []")
        case True
        have "admit (admit_count e s2) (pruned s2) = admit (admit_count e s) (pruned s)"
        proof -
          have "admit_count e s = 1 + admit_count e s2"
            using True guard q
            by (auto simp: s2_def admit_count_def setTimeout_def pruned_def min_def)
          then show ?thesis
            by (simp add: s2_1 pruned_admit pruned_idem admit_admit)
        qed
        moreover have "processQueue_loop e s2 = admit (admit_count e s2) (pruned s2)"
          using IH True w2 False by simp
        ultimately show ?thesis
          using guard False by (simp add: unfold)
      next
        case F2: False
        have "q = [] \<or> nat (maxConcurrent e - activeTaskCount s) = 1"
          using F2 guard by (auto simp: s2_def setTimeout_def pruned_def)
        then have "admit_count e s = 1" using guard q
          by (auto simp: admit_count_def min_def)
        moreover have "processQueue_loop e s2 = s2"
          using IH F2 by (simp cong: conj_cong)
        ultimately show ?thesis
          using guard False by (simp add: unfold s2_1)
      qed
    qed
  qed
qed

section \<open>The structural invariant\<close>

lemma timer_tasks_append [simp]: "timer_tasks (xs @ ys) = timer_tasks xs + timer_tasks ys"
  by (simp add: timer_tasks_def)

lemma timer_tasks_Nil [simp]: "timer_tasks [] = {#}"
  by (simp add: timer_tasks_def)

lemma timer_tasks_Cons [simp]: "timer_tasks (p # xs) = cb_task (snd p) + timer_tasks xs"
  by (simp add: timer_tasks_def)

lemma timer_tasks_remove:
  assumes "k < length tm"
  shows "timer_tasks tm = cb_task (snd (tm ! k)) + timer_tasks (take k tm @ drop (Suc k) tm)"
proof -
  have "timer_tasks tm = timer_tasks (take k tm @ tm ! k # drop (Suc k) tm)"
    using assms by (simp add: id_take_nth_drop[symmetric])
  then show ?thesis by simp
qed

lemma set_remove_nth: "set (take k xs @ drop (Suc k) xs) \<subseteq> set xs"
  by (auto dest: in_set_takeD in_set_dropD)

lemma acquire_ok_append [simp]:
  "acquire_ok e (xs @ ys) \<longleftrightarrow> acquire_ok e xs \<and> acquire_ok e ys"
  by (auto simp: acquire_ok_def)

lemma acquire_ok_exec [simp]: "acquire_ok e (map (\<lambda>i. (t, CbExecuteTask i)) xs)"
  by (auto simp: acquire_ok_def)

lemma acquire_ok_single [simp]:
  "acquire_ok e [(d, cb)] \<longleftrightarrow> (\<forall>i. cb = CbAcquire i \<longrightarrow> (\<exists>a. fnArgs e ! i = JArr a))"
  by (auto simp: acquire_ok_def)

lemma acquire_ok_remove: "acquire_ok e tm \<Longrightarrow> acquire_ok e (take k tm @ drop (Suc k) tm)"
  using set_remove_nth[of k tm] unfolding acquire_ok_def by blast

lemma calling_ok_append [simp]:
  "calling_ok e (xs @ ys) \<longleftrightarrow> calling_ok e xs \<and> calling_ok e ys"
  by (auto simp: calling_ok_def)

lemma calling_ok_filter: "calling_ok e cs \<Longrightarrow> calling_ok e (filter P cs)"
  by (auto simp: calling_ok_def)

lemma struct_setTimeout:
  "struct_gen e H s \<Longrightarrow> cb = CbProcessQueue \<or> cb = CbPoll \<Longrightarrow> struct_gen e H (setTimeout cb d s)"
  by (auto simp: struct_gen_def setTimeout_def pending_def)

lemma struct_pruned: "struct_gen e H s \<Longrightarrow> struct_gen e H (pruned s)"
  by (simp add: struct_gen_def pruned_def pending_def)

lemma core_admit1:
  assumes "core e P q rs a" "q \<noteq> []"
  shows "core e (P + {#hd q#}) (tl q) rs (a + 1)"
proof -
  let ?N = "length (fnArgs e)"
  let ?k = "?N - length q"
  have q: "q = [?k ..< ?N]" and len: "length q \<le> ?N"
    and cnt: "\<And>i. count P i \<le> 1" and lt: "\<And>i. i \<in># P \<Longrightarrow> i < ?k"
    and rs: "\<And>i. i < ?N \<Longrightarrow> rs ! i = None \<longleftrightarrow> (i \<in># P \<or> ?k \<le> i)"
    using assms(1) unfolding core_def by blast+
  have kN: "?k < ?N" using assms(2) len by (cases q) auto
  have q': "q = ?k # [Suc ?k ..< ?N]" using q kN by (metis upt_conv_Cons)
  have hd: "hd q = ?k" by (subst q') simp
  have k': "?N - length (tl q) = Suc ?k" using kN len assms(2) by (cases q) auto
  have tl: "tl q = [Suc ?k ..< ?N]" by (subst q') simp
  have notin: "?k \<notin># P" using lt by blast
  show ?thesis
    unfolding core_def hd k'
  proof (intro conjI allI impI)
    show "length (tl q) \<le> ?N" using len by simp
    show "tl q = [Suc ?k ..< ?N]" by (rule tl)
    show "length rs = ?N" using assms(1) by (simp add: core_def)
    show "a + 1 = int (size (P + {#?k#}))" using assms(1) by (simp add: core_def)
    show "count (P + {#?k#}) i \<le> 1" for i
      using cnt[of i] notin by (auto simp: not_in_iff)
    show "i < Suc ?k" if "i \<in># P + {#?k#}" for i
      using that lt[of i] by auto
    show "(rs ! i = None) = (i \<in># P + {#?k#} \<or> Suc ?k \<le> i)" if "i < ?N" for i
      using rs[OF that] by auto
  qed
qed

lemma core_finish:
  assumes "core e (P + {#i#}) q rs a"
  shows "core e P q (rs[i := Some r]) (a - 1)"
proof -
  let ?N = "length (fnArgs e)"
  let ?k = "?N - length q"
  have cnt: "\<And>j. count (P + {#i#}) j \<le> 1" and lt: "\<And>j. j \<in># P + {#i#} \<Longrightarrow> j < ?k"
    and rs: "\<And>j. j < ?N \<Longrightarrow> rs ! j = None \<longleftrightarrow> (j \<in># P + {#i#} \<or> ?k \<le> j)"
    and lr: "length rs = ?N"
    using assms(1) unfolding core_def by blast+
  have ik: "i < ?k" using lt[of i] by simp
  have notin: "i \<notin># P" using cnt[of i] by (simp add: not_in_iff)
  show ?thesis
    unfolding core_def
  proof (intro conjI allI impI)
    show "length q \<le> ?N" using assms by (simp add: core_def)
    show "q = [?k ..< ?N]" using assms by (simp add: core_def)
    show "length (rs[i := Some r]) = ?N" using lr by simp
    show "a - 1 = int (size P)" using assms by (simp add: core_def)
    show "count P j \<le> 1" for j using cnt[of j] by (simp split: if_splits)
    show "j < ?k" if "j \<in># P" for j using lt[of j] that by simp
    show "(rs[i := Some r] ! j = None) = (j \<in># P \<or> ?k \<le> j)" if "j < ?N" for j
      using rs[OF that] that lr notin ik by (cases "j = i") auto
  qed
qed

lemma struct_admit1:
  assumes "struct_gen e {#} s" "taskQueue s \<noteq> []"
  shows "struct_gen e {#} (admit 1 s)"
proof -
  have t1: "take 1 (taskQueue s) = [hd (taskQueue s)]" and d1: "drop 1 (taskQueue s) = tl (taskQueue s)"
    using assms(2) by (cases "taskQueue s", simp_all)+
  have "pending (admit 1 s) = pending s + {#hd (taskQueue s)#}"
    using t1 by (simp add: pending_def admit_def)
  moreover have "core e (pending s + {#hd (taskQueue s)#}) (tl (taskQueue s)) (results s)
                   (activeTaskCount s + 1)"
    using core_admit1[OF _ assms(2)] assms(1) by (simp add: struct_gen_def)
  ultimately show ?thesis
    using assms(1) d1 by (simp add: struct_gen_def admit_def)
qed

lemma admit_0: "admit 0 s = s"
  by (simp add: admit_def)

lemma struct_admit:
  "struct_gen e {#} s \<Longrightarrow> n \<le> length (taskQueue s) \<Longrightarrow> struct_gen e {#} (admit n s)"
proof (induction n)
  case 0
  then show ?case by (simp add: admit_0)
next
  case (Suc n)
  have "admit (Suc n) s = admit 1 (admit n s)" by (simp add: admit_admit)
  moreover have "taskQueue (admit n s) \<noteq> []" using Suc.prems by (simp add: admit_def)
  ultimately show ?case using Suc struct_admit1[of e "admit n s"] by simp
qed

lemma unset_processingQueue: "\<not> processingQueue s \<Longrightarrow> s\<lparr>processingQueue := False\<rparr> = s"
  by (cases s) simp

lemma processQueue_closed:
  assumes "\<not> processingQueue s"
  shows "processQueue e s =
     (if activeTaskCount s < maxConcurrent e \<and> taskQueue s \<noteq> [] then
        (if gt0 (slot_wait (rpm e) (now s) (requestTimestamps s))
         then setTimeout CbProcessQueue (num_of (slot_wait (rpm e) (now s) (requestTimestamps s))) (pruned s)
         else admit (admit_count e s) (pruned s))
      else s)"
  using assms
  by (simp add: processQueue_def processQueue_loop_closed setTimeout_def pruned_def admit_def
        admit_count_def unset_processingQueue)

lemma struct_processQueue:
  assumes "struct_gen e {#} s"
  shows "struct_gen e {#} (processQueue e s)"
proof -
  have np: "\<not> processingQueue s" using assms by (simp add: struct_gen_def)
  have "admit_count e s \<le> length (taskQueue (pruned s))"
    by (simp add: admit_count_def pruned_def)
  then show ?thesis
    using assms by (simp add: processQueue_closed[OF np] struct_setTimeout struct_pruned struct_admit)
qed

lemma run_task_closed:
  "run_task e i args s =
     (if gt0 (slot_wait (rpm e) (now s) (requestTimestamps s))
      then setTimeout (CbAcquire i) (num_of (slot_wait (rpm e) (now s) (requestTimestamps s))) (pruned s)
      else (pruned s)\<lparr>requestTimestamps := sort (prune (now s) (requestTimestamps s) @ [now s]),
                     calling := calling s @ [(i, args)],
                     started := started s @ [(now s, i)]\<rparr>)"
  by (simp add: run_task_def acquireRateLimitSlot_def getTimeUntilNextSlot_def pruned_def
        setTimeout_def)

lemma struct_run_task:
  assumes "struct_gen e {#i#} s" "fnArgs e ! i = JArr args"
  shows "struct_gen e {#} (run_task e i args s)"
  using assms
  by (simp add: run_task_closed struct_gen_def setTimeout_def pruned_def pending_def calling_ok_def)

lemma struct_finish:
  assumes "struct_gen e {#i#} s"
  shows "struct_gen e {#} (completeTask (s\<lparr>results := (results s)[i := Some r]\<rparr>))"
  using assms core_finish[of e "pending s" i "taskQueue s" "results s" "activeTaskCount s" r]
  by (simp add: struct_gen_def completeTask_def setTimeout_def pending_def)

lemma struct_index:
  assumes "struct_gen e {#i#} s"
  shows "i < length (fnArgs e)"
proof -
  have "i \<in># pending s + {#i#}" by simp
  then have "i < length (fnArgs e) - length (taskQueue s)"
    using assms unfolding struct_gen_def core_def by blast
  then show ?thesis by simp
qed

lemma struct_invI: "struct_gen e {#} s \<Longrightarrow> struct_inv e s"
  by (auto simp: struct_inv_def)

lemma struct_invD: "struct_inv e s \<Longrightarrow> unhandled s = 0 \<Longrightarrow> struct_gen e {#} s"
  by (auto simp: struct_inv_def)

lemma struct_unhandled: "struct_gen e H s \<Longrightarrow> struct_gen e H (s\<lparr>unhandled := u\<rparr>)"
  by (simp add: struct_gen_def pending_def)

lemma struct_executeTask:
  assumes "struct_gen e {#i#} s"
  shows "struct_inv e (executeTask e i s)"
proof (cases "\<exists>a. fnArgs e ! i = JArr a")
  case True
  then show ?thesis
    using struct_index[OF assms] assms by (auto simp: executeTask_def struct_run_task struct_invI)
next
  case False
  show ?thesis
  proof (cases "converts_to_string (fnArgs e ! i)")
    case True
    then have "executeTask e i s =
        completeTask (s\<lparr>results := (results s)[i := Some (failure args_error)]\<rparr>)"
      using False struct_index[OF assms] by (auto simp: executeTask_def split: jsval.splits)
    then show ?thesis using struct_finish[OF assms] by (simp add: struct_invI)
  next
    case F: False
    then have eq: "executeTask e i s = s\<lparr>unhandled := unhandled s + 1\<rparr>"
      using False struct_index[OF assms] by (auto simp: executeTask_def split: jsval.splits)
    have "struct_gen e {#i#} (s\<lparr>unhandled := unhandled s + 1\<rparr>)"
      using assms by (rule struct_unhandled)
    then show ?thesis unfolding eq struct_inv_def by auto
  qed
qed

lemma struct_resume_acquire:
  assumes "struct_gen e {#i#} s" "fnArgs e ! i = JArr a"
  shows "struct_gen e {#} (resume_acquire e i s)"
  using struct_index[OF assms(1)] assms by (simp add: resume_acquire_def struct_run_task)

lemma struct_poll: "struct_gen e H s \<Longrightarrow> struct_gen e H (poll s)"
  by (auto simp: poll_def struct_setTimeout) (simp add: struct_gen_def pending_def)

lemma struct_remove_timer:
  assumes "struct_gen e {#} s" "k < length (timers s)"
  shows "struct_gen e (cb_task (snd (timers s ! k)))
           (s\<lparr>timers := take k (timers s) @ drop (Suc k) (timers s)\<rparr>)"
proof -
  have "pending s = pending (s\<lparr>timers := take k (timers s) @ drop (Suc k) (timers s)\<rparr>)
          + cb_task (snd (timers s ! k))"
    using timer_tasks_remove[OF assms(2)] by (simp add: pending_def)
  then show ?thesis
    using assms(1) by (simp add: struct_gen_def acquire_ok_remove del: acquire_ok_append)
qed

lemma struct_fire:
  assumes "struct_gen e {#} s" "fire e k s = Some s'"
  shows "struct_inv e s'"
proof -
  let ?s0 = "s\<lparr>timers := take k (timers s) @ drop (Suc k) (timers s)\<rparr>"
  have k: "k < length (timers s)" and s': "s' = run_callback e (snd (timers s ! k)) ?s0"
    using assms(2) by (auto simp: fire_def split: if_splits)
  have g: "struct_gen e (cb_task (snd (timers s ! k))) ?s0"
    by (rule struct_remove_timer[OF assms(1) k])
  show ?thesis
  proof (cases "snd (timers s ! k)")
    case CbProcessQueue
    then show ?thesis using g s' by (simp add: struct_processQueue struct_invI)
  next
    case (CbExecuteTask i)
    then show ?thesis using g s' by (simp add: struct_executeTask)
  next
    case (CbAcquire i)
    have "(fst (timers s ! k), CbAcquire i) \<in> set (timers s)"
      using k CbAcquire by (metis nth_mem prod.collapse)
    then obtain a where "fnArgs e ! i = JArr a"
      using assms(1) unfolding struct_gen_def acquire_ok_def by blast
    then show ?thesis using g s' CbAcquire by (simp add: struct_resume_acquire struct_invI)
  next
    case CbPoll
    then show ?thesis using g s' by (simp add: struct_poll struct_invI)
  qed
qed

lemma struct_block: "struct_gen e H s \<Longrightarrow> struct_gen e H (block_requests e d s)"
  by (simp add: struct_gen_def block_requests_def pending_def)

lemma struct_on_error: "struct_gen e H s \<Longrightarrow> struct_gen e H (on_error e err s)"
  by (simp add: on_error_def struct_block struct_unhandled split: option.splits retry_parse.splits)

lemma results_on_error [simp]: "results (on_error e err s) = results s"
  by (auto simp: on_error_def block_requests_def split: option.splits retry_parse.splits)

lemma on_error_results_commute:
  "on_error e err (s\<lparr>results := r\<rparr>) = (on_error e err s)\<lparr>results := r\<rparr>"
  by (simp add: on_error_def block_requests_def split: option.splits retry_parse.splits)

lemma mset_remove_call:
  assumes "map_of cs i = Some a" "\<forall>j. count (mset (map fst cs)) j \<le> 1"
  shows "mset (map fst cs) = mset (map fst (filter (\<lambda>c. fst c \<noteq> i) cs)) + {#i#}"
  using assms
proof (induction cs)
  case Nil
  then show ?case by simp
next
  case (Cons c cs)
  show ?case
  proof (cases "fst c = i")
    case True
    have "count (mset (map fst (c # cs))) i \<le> 1" using Cons.prems(2) by blast
    then have "count (mset (map fst cs)) i = 0" using True by simp
    then have "i \<notin> set (map fst cs)"
      by (metis count_eq_zero_iff set_mset_mset)
    then have "filter (\<lambda>c. fst c \<noteq> i) cs = cs"
      by (auto simp: filter_id_conv)
    then show ?thesis using True by simp
  next
    case False
    then have "map_of cs i = Some a" using Cons.prems(1) by (cases c) (auto split: if_splits)
    moreover have "\<forall>j. count (mset (map fst cs)) j \<le> 1"
    proof
      fix j
      have "count (mset (map fst cs)) j \<le> count (mset (map fst (c # cs))) j" by simp
      also have "\<dots> \<le> 1" using Cons.prems(2) by blast
      finally show "count (mset (map fst cs)) j \<le> 1" .
    qed
    ultimately show ?thesis using Cons.IH False by simp
  qed
qed

lemma struct_settle:
  assumes "struct_gen e {#} s" "settle e i out s = Some s'"
  shows "struct_gen e {#} s'"
proof -
  obtain args where m: "map_of (calling s) i = Some args"
    using assms(2) by (auto simp: settle_def split: option.splits)
  let ?s0 = "s\<lparr>calling := filter (\<lambda>c. fst c \<noteq> i) (calling s),
                settled := settled s @ [(i, args, out)]\<rparr>"
  let ?s1 = "case out of Resolved v \<Rightarrow> ?s0 | Rejected err \<Rightarrow> on_error e err ?s0"
  have c1: "\<forall>j. count (mset (map fst (calling s))) j \<le> 1"
  proof
    fix j
    have "count (mset (map fst (calling s))) j \<le> count (pending s) j"
      by (simp add: pending_def)
    also have "\<dots> \<le> 1" using assms(1) by (simp add: struct_gen_def core_def)
    finally show "count (mset (map fst (calling s))) j \<le> 1" .
  qed
  have p: "pending s = pending ?s0 + {#i#}"
    using mset_remove_call[OF m c1] by (simp add: pending_def)
  have g0: "struct_gen e {#i#} ?s0"
    using assms(1) p by (simp add: struct_gen_def calling_ok_filter)
  have g1: "struct_gen e {#i#} ?s1"
    using g0 by (cases out) (simp_all add: struct_on_error)
  have "s' = completeTask (?s1\<lparr>results := (results ?s1)[i := Some (stored out)]\<rparr>)"
    using assms(2) m by (cases out) (auto simp: settle_def Let_def on_error_results_commute)
  then show ?thesis using struct_finish[OF g1] by simp
qed

lemma struct_turn:
  assumes "struct_gen e {#} s" "turn e ev s = Some s'"
  shows "struct_inv e s'"
proof (cases ev)
  case (Advance d)
  then have "struct_gen e {#} s'" using assms by (auto simp: struct_gen_def pending_def)
  then show ?thesis by (rule struct_invI)
next
  case (Fire k)
  then show ?thesis using assms struct_fire by simp
next
  case (Settle i out)
  then show ?thesis using assms struct_settle struct_invI by simp
qed

lemma step_turn:
  assumes "step e ev s = Some s'"
  shows "unhandled s = 0" "turn e ev s = Some s'"
  using assms by (auto simp: step_def split: if_splits)

lemma struct_step:
  assumes "struct_inv e s" "step e ev s = Some s'"
  shows "struct_inv e s'"
  using struct_turn[OF struct_invD[OF assms(1) step_turn(1)[OF assms(2)]] step_turn(2)[OF assms(2)]] .

lemma struct_initial: "struct_gen e {#} (initial e t0)"
  by (simp add: struct_gen_def core_def acquire_ok_def calling_ok_def initial_def pending_def)

lemma struct_start: "struct_gen e {#} (rpmControlledBatch e t0)"
  by (simp add: rpmControlledBatch_def struct_poll struct_processQueue struct_initial)

section \<open>Invariants along executions\<close>

lemma exec_invariant:
  assumes "exec e evs s = Some s'" "P s"
    and "\<And>s ev s'. P s \<Longrightarrow> step e ev s = Some s' \<Longrightarrow> P s'"
  shows "P s'"
  using assms(1,2)
proof (induction evs arbitrary: s)
  case Nil
  then show ?case by simp
next
  case (Cons ev evs)
  then show ?case using assms(3) by (auto split: option.splits)
qed

lemma struct_reachable:
  "exec e evs (rpmControlledBatch e t0) = Some s \<Longrightarrow> struct_inv e s"
  by (rule exec_invariant[where P = "struct_inv e"])
     (auto simp: struct_start struct_invI intro: struct_step)

lemma struct_inv_np: "struct_inv e s \<Longrightarrow> \<not> processingQueue s"
  by (auto simp: struct_inv_def struct_gen_def)

lemma struct_inv_core:
  assumes "struct_inv e s"
  shows "length (results s) = length (fnArgs e)" "0 \<le> activeTaskCount s"
    "calling_ok e (calling s)"
  using assms by (auto simp: struct_inv_def struct_gen_def core_def)

lemma struct_inv_idle:
  assumes "struct_inv e s" "activeTaskCount s = 0"
  shows "struct_gen e {#} s"
proof -
  obtain H where H: "struct_gen e H s" using assms(1) by (auto simp: struct_inv_def)
  then have "int (size (pending s + H)) = 0"
    using assms(2) unfolding struct_gen_def core_def by simp
  then have "size (pending s + H) = 0" by (simp only: of_nat_eq_0_iff)
  then have "H = {#}" by simp
  then show ?thesis using H by simp
qed

section \<open>The rate invariant on the window\<close>

lemma length_filter_mono:
  "(\<And>x. x \<in> set xs \<Longrightarrow> Q x \<Longrightarrow> P x) \<Longrightarrow> length (filter Q xs) \<le> length (filter P xs)"
  by (induction xs) auto

lemma mset_filter_mono:
  assumes "mset xs \<subseteq># mset ys"
  shows "mset (filter P xs) \<subseteq># mset (filter P ys)"
  using multiset_filter_mono[OF assms, of P] by simp

lemma rate_ok_prune:
  assumes "rate_ok b t tss sts"
  shows "rate_ok b t (prune t tss) sts"
proof -
  let ?P = "\<lambda>x. t - x < windowDuration"
  have "mset (filter ?P sts) \<subseteq># mset tss" using assms by (simp add: rate_ok_def)
  then have "mset (filter ?P (filter ?P sts)) \<subseteq># mset (filter ?P tss)"
    by (rule mset_filter_mono)
  moreover have "filter ?P (filter ?P sts) = filter ?P sts" by simp
  ultimately have "mset (filter ?P sts) \<subseteq># mset (prune t tss)"
    by (simp only: prune_def)
  then show ?thesis using assms by (simp add: rate_ok_def)
qed

lemma rate_ok_advance:
  assumes "rate_ok b t tss sts" "0 \<le> d"
  shows "rate_ok b (t + d) tss sts"
proof -
  have "filter (\<lambda>x. t + d - x < windowDuration) sts
          = filter (\<lambda>x. t + d - x < windowDuration) (filter (\<lambda>x. t - x < windowDuration) sts)"
    using assms(2) by (auto intro!: filter_cong)
  then have "mset (filter (\<lambda>x. t + d - x < windowDuration) sts)
          \<subseteq># mset (filter (\<lambda>x. t - x < windowDuration) sts)"
    by (metis mset_filter multiset_filter_subset)
  moreover have "mset (filter (\<lambda>x. t - x < windowDuration) sts) \<subseteq># mset tss"
    using assms(1) by (simp add: rate_ok_def)
  ultimately have "mset (filter (\<lambda>x. t + d - x < windowDuration) sts) \<subseteq># mset tss"
    by (rule subset_mset.order_trans)
  moreover have "\<forall>x \<in> set sts. x \<le> t + d" using assms by (auto simp: rate_ok_def)
  ultimately show ?thesis using assms(1) by (simp add: rate_ok_def)
qed

lemma rate_ok_grow:
  assumes "rate_ok b t tss sts" "mset tss \<subseteq># mset tss'"
  shows "rate_ok b t tss' sts"
  using assms unfolding rate_ok_def by (meson subset_mset.order_trans)

lemma rate_ok_start:
  assumes ok: "rate_ok b t tss sts" and room: "int (length (prune t tss)) + 1 \<le> b"
  shows "rate_ok b t (sort (prune t tss @ [t])) (sts @ [t])"
proof -
  let ?P = "\<lambda>x. t - x < windowDuration"
  have le: "\<forall>x \<in> set sts. x \<le> t" using ok by (simp add: rate_ok_def)
  have sub: "mset (filter ?P sts) \<subseteq># mset (prune t tss)"
    using rate_ok_prune[OF ok] by (simp add: rate_ok_def)
  have W: "0 < windowDuration" by (simp add: windowDuration_def)
  have 1: "\<forall>x \<in> set (sts @ [t]). x \<le> t" using le by simp
  have 2: "mset (filter ?P (sts @ [t])) \<subseteq># mset (sort (prune t tss @ [t]))"
    using sub W by simp
  have 3: "int (length (filter (\<lambda>x. T - windowDuration < x \<and> x \<le> T) (sts @ [t]))) \<le> b" for T
  proof (cases "t \<le> T")
    case False
    then show ?thesis using ok by (simp add: rate_ok_def)
  next
    case True
    have "length (filter (\<lambda>x. T - windowDuration < x \<and> x \<le> T) sts) \<le> length (filter ?P sts)"
      using le True by (intro length_filter_mono) auto
    also have "\<dots> = size (mset (filter ?P sts))" by (simp only: size_mset)
    also have "\<dots> \<le> size (mset (prune t tss))" using sub by (rule size_mset_mono)
    also have "\<dots> = length (prune t tss)" by (simp only: size_mset)
    finally show ?thesis using room by simp
  qed
  show ?thesis unfolding rate_ok_def using 1 2 3 by blast
qed

lemma no_wait_room:
  assumes "\<not> gt0 (slot_wait r t tss)"
  shows "int (length (prune t tss)) + 1 \<le> max 1 r"
proof (cases "int (length (prune t tss)) < r")
  case True
  then show ?thesis by simp
next
  case False
  show ?thesis
  proof (cases "prune t tss")
    case Nil
    then show ?thesis by simp
  next
    case (Cons oldest rest)
    then have "oldest \<in> set (prune t tss)" by simp
    then have "t - oldest < windowDuration" by (simp add: prune_def)
    then have "gt0 (slot_wait r t tss)" using False Cons by (simp add: slot_wait_def)
    then show ?thesis using assms by simp
  qed
qed

section \<open>Invariants of the window\<close>

text \<open>
  Every property of the clock, the window, the starts and the cooldowns that holds
  initially and is kept by pruning, by recording a start when no wait is due, by a
  cooldown and by the passing of time holds in every reachable state.
\<close>

lemma struct_np: "struct_gen e H s \<Longrightarrow> \<not> processingQueue s"
  by (simp add: struct_gen_def)

lemma parse_retry_pos:
  assumes "parse_retry x = Delay d"
  shows "0 < d"
proof -
  have "gt0 n \<Longrightarrow> 0 < num_of n" for n by (cases n) simp_all
  then show ?thesis
    using assms
    by (auto simp: parse_retry_def Let_def
          split: jsval.splits option.splits if_splits)
qed

lemma window_invariant:
  fixes Q :: "int \<Rightarrow> int list \<Rightarrow> (int \<times> nat) list \<Rightarrow> (int \<times> int) list \<Rightarrow> bool"
  assumes run: "exec e evs (rpmControlledBatch e t0) = Some s"
    and init: "Q t0 [] [] []"
    and prune: "\<And>t tss sts cs. Q t tss sts cs \<Longrightarrow> Q t (prune t tss) sts cs"
    and start: "\<And>t tss sts cs i. Q t tss sts cs \<Longrightarrow> \<not> gt0 (slot_wait (rpm e) t tss) \<Longrightarrow>
                  Q t (sort (prune t tss @ [t])) (sts @ [(t, i)]) cs"
    and block: "\<And>t tss sts cs d. Q t tss sts cs \<Longrightarrow> 0 < d \<Longrightarrow>
                  Q t (sort (tss @ replicate (nat (rpm e)) (t - windowDuration + d))) sts
                    (cs @ [(t, d)])"
    and advance: "\<And>t tss sts cs d. Q t tss sts cs \<Longrightarrow> Q (t + int d) tss sts cs"
  shows "Q (now s) (requestTimestamps s) (started s) (cooldowns s)"
proof -
  define P where "P s = Q (now s) (requestTimestamps s) (started s) (cooldowns s)" for s :: state
  have P_pruned: "P (pruned s)" if "P s" for s
    using that prune by (simp add: P_def pruned_def)
  have P_setTimeout: "P (setTimeout cb d s)" if "P s" for s cb d
    using that by (simp add: P_def setTimeout_def)
  have P_admit: "P (admit n s)" if "P s" for s n
    using that by (simp add: P_def admit_def)
  have P_processQueue: "P (processQueue e s)" if "P s" "\<not> processingQueue s" for s
    using that(1) by (simp add: processQueue_closed[OF that(2)] P_pruned P_setTimeout P_admit)
  have P_run_task: "P (run_task e i args s)" if "P s" for s i args
  proof (cases "gt0 (slot_wait (rpm e) (now s) (requestTimestamps s))")
    case True
    then show ?thesis using that by (simp add: run_task_closed P_pruned P_setTimeout)
  next
    case False
    then show ?thesis using that start[of "now s" "requestTimestamps s" "started s" "cooldowns s" i]
      by (simp add: run_task_closed P_def pruned_def)
  qed
  have P_completeTask: "P (completeTask s)" if "P s" for s
    using that by (simp add: P_def completeTask_def setTimeout_def)
  have P_results: "P (s\<lparr>results := r\<rparr>)" if "P s" for s r
    using that by (simp add: P_def)
  have P_unhandled: "P (s\<lparr>unhandled := u\<rparr>)" if "P s" for s u
    using that by (simp add: P_def)
  have P_executeTask: "P (executeTask e i s)" if "P s" for s i
    using that
    by (simp add: executeTask_def P_run_task P_completeTask P_results P_unhandled
          split: jsval.splits)
  have P_resume: "P (resume_acquire e i s)" if "P s" for s i
    using that by (simp add: resume_acquire_def P_run_task split: jsval.splits)
  have P_poll: "P (poll s)" if "P s" for s
    using that by (simp add: poll_def P_setTimeout) (simp add: P_def)
  have P_block: "P (block_requests e d s)" if "P s" "0 < d" for s d
    using that block by (simp add: P_def block_requests_def)
  have P_on_error: "P (on_error e err s)" if "P s" for s err
    using that parse_retry_pos
    by (auto simp: on_error_def P_block P_unhandled split: option.splits retry_parse.splits)
  have P_fire: "P s'" if "P s" "\<not> processingQueue s" "fire e k s = Some s'" for s k s'
  proof -
    let ?s0 = "s\<lparr>timers := take k (timers s) @ drop (Suc k) (timers s)\<rparr>"
    have s': "s' = run_callback e (snd (timers s ! k)) ?s0"
      using that(3) by (auto simp: fire_def split: if_splits)
    have r0: "P ?s0" using that(1) by (simp add: P_def)
    have p0: "\<not> processingQueue ?s0" using that(2) by simp
    show ?thesis unfolding s'
      by (cases "snd (timers s ! k)")
         (simp_all add: r0 P_processQueue[OF r0 p0] P_executeTask P_resume P_poll)
  qed
  have P_settle: "P s'" if a: "P s" and b: "settle e i out s = Some s'" for s i out s'
  proof -
    obtain args where m: "map_of (calling s) i = Some args"
      using b by (auto simp: settle_def split: option.splits)
    let ?s1 = "s\<lparr>calling := filter (\<lambda>c. fst c \<noteq> i) (calling s),
                  settled := settled s @ [(i, args, out)],
                  results := (results s)[i := Some (stored out)]\<rparr>"
    have r1: "P ?s1" using a by (simp add: P_def)
    have "s' = completeTask (case out of Resolved v \<Rightarrow> ?s1 | Rejected err \<Rightarrow> on_error e err ?s1)"
      using b m by (simp add: settle_def Let_def)
    then show ?thesis using r1 by (cases out) (simp_all add: P_completeTask P_on_error)
  qed
  have P_turn: "P s'" if "P s" "\<not> processingQueue s" "turn e ev s = Some s'" for s ev s'
  proof (cases ev)
    case (Advance d)
    then show ?thesis using that advance by (auto simp: P_def)
  next
    case (Fire k)
    then show ?thesis using that P_fire by simp
  next
    case (Settle i out)
    then show ?thesis using that P_settle by simp
  qed
  have P_start: "P (rpmControlledBatch e t0)"
  proof -
    have "P (initial e t0)" using init by (simp add: P_def initial_def)
    moreover have "\<not> processingQueue (initial e t0)" by (simp add: initial_def)
    ultimately show ?thesis by (simp add: rpmControlledBatch_def P_poll P_processQueue)
  qed
  have "struct_inv e s \<and> P s"
  proof (rule exec_invariant[OF run, where P = "\<lambda>s. struct_inv e s \<and> P s"])
    show "struct_inv e (rpmControlledBatch e t0) \<and> P (rpmControlledBatch e t0)"
      by (simp add: struct_start struct_invI P_start)
  next
    fix s ev s'
    assume a: "struct_inv e s \<and> P s" and s: "step e ev s = Some s'"
    have "P s'" using P_turn[OF _ struct_inv_np step_turn(2)[OF s]] a by blast
    then show "struct_inv e s' \<and> P s'"
      using struct_step a s by blast
  qed
  then show ?thesis by (simp add: P_def)
qed

lemma sorted_reachable:
  assumes "exec e evs (rpmControlledBatch e t0) = Some s"
  shows "sorted (requestTimestamps s)"
  by (rule window_invariant[OF assms, where Q = "\<lambda>t tss sts n. sorted tss"])
     (simp_all add: sorted_prune)

lemma length_prune_sort: "length (prune t (sort xs)) = length (prune t xs)"
proof -
  have "mset (prune t (sort xs)) = mset (prune t xs)" by (simp add: prune_def)
  then show ?thesis by (metis size_mset)
qed

lemma length_prune_advance: "length (prune (t + int d) xs) \<le> length (prune t xs)"
  unfolding prune_def by (rule length_filter_mono) simp

lemma window_bound_reachable:
  assumes "exec e evs (rpmControlledBatch e t0) = Some s" "0 < rpm e"
  shows "int (length (prune (now s) (requestTimestamps s)))
           \<le> rpm e * (1 + int (length (cooldowns s)))"
proof (rule window_invariant[OF assms(1),
        where Q = "\<lambda>t tss sts cs. int (length (prune t tss)) \<le> rpm e * (1 + int (length cs))"])
  show "int (length (prune t0 [])) \<le> rpm e * (1 + int (length ([] :: (int \<times> int) list)))"
    using assms(2) by (simp add: prune_def)
next
  fix t tss and sts :: "(int \<times> nat) list" and cs :: "(int \<times> int) list"
  assume "int (length (prune t tss)) \<le> rpm e * (1 + int (length cs))"
  then show "int (length (prune t (prune t tss))) \<le> rpm e * (1 + int (length cs))"
    by (simp add: prune_idem)
next
  fix t tss and sts :: "(int \<times> nat) list" and cs :: "(int \<times> int) list" and i :: nat
  assume "\<not> gt0 (slot_wait (rpm e) t tss)"
  then have "int (length (prune t tss)) + 1 \<le> rpm e"
    using no_wait_room[of "rpm e" t tss] assms(2) by simp
  moreover have "length (prune t (prune t tss @ [t])) = length (prune t tss) + 1"
    by (simp add: prune_def windowDuration_def)
  then have "int (length (prune t (sort (prune t tss @ [t])))) = int (length (prune t tss)) + 1"
    by (simp add: length_prune_sort)
  moreover have "rpm e \<le> rpm e * (1 + int (length cs))"
    using assms(2) by (simp add: mult_le_cancel_left1)
  ultimately show "int (length (prune t (sort (prune t tss @ [t]))))
                     \<le> rpm e * (1 + int (length cs))"
    by linarith
next
  fix t tss and sts :: "(int \<times> nat) list" and cs :: "(int \<times> int) list" and d :: int
  assume a: "int (length (prune t tss)) \<le> rpm e * (1 + int (length cs))"
  have "length (prune t (tss @ replicate (nat (rpm e)) (t - windowDuration + d)))
          \<le> length (prune t tss) + nat (rpm e)"
    by (simp add: prune_def) (metis length_filter_le length_replicate)
  then have "int (length (prune t (tss @ replicate (nat (rpm e)) (t - windowDuration + d))))
          \<le> int (length (prune t tss)) + rpm e"
    using assms(2) by linarith
  then show "int (length (prune t (sort (tss @ replicate (nat (rpm e)) (t - windowDuration + d)))))
          \<le> rpm e * (1 + int (length (cs @ [(t, d)])))"
    using a by (simp add: length_prune_sort algebra_simps)
next
  fix t tss and sts :: "(int \<times> nat) list" and cs :: "(int \<times> int) list" and d :: nat
  assume "int (length (prune t tss)) \<le> rpm e * (1 + int (length cs))"
  then show "int (length (prune (t + int d) tss)) \<le> rpm e * (1 + int (length cs))"
    using length_prune_advance[of t d tss] by linarith
qed

lemma rate_reachable:
  assumes "exec e evs (rpmControlledBatch e t0) = Some s"
  shows "rate_inv e s"
  unfolding rate_inv_def
proof (rule window_invariant[OF assms,
        where Q = "\<lambda>t tss sts cs. rate_ok (max 1 (rpm e)) t tss (map fst sts)"])
  show "rate_ok (max 1 (rpm e)) t0 [] (map fst [])" by (simp add: rate_ok_def)
next
  fix t tss and sts :: "(int \<times> nat) list" and i :: nat
  assume "rate_ok (max 1 (rpm e)) t tss (map fst sts)" "\<not> gt0 (slot_wait (rpm e) t tss)"
  then show "rate_ok (max 1 (rpm e)) t (sort (prune t tss @ [t])) (map fst (sts @ [(t, i)]))"
    using rate_ok_start[of "max 1 (rpm e)" t tss "map fst sts"] no_wait_room[of "rpm e" t tss]
    by simp
next
  fix t tss and sts :: "(int \<times> nat) list" and d :: int
  assume "rate_ok (max 1 (rpm e)) t tss (map fst sts)"
  then show "rate_ok (max 1 (rpm e)) t
               (sort (tss @ replicate (nat (rpm e)) (t - windowDuration + d))) (map fst sts)"
    by (rule rate_ok_grow) simp
next
  fix t tss and sts :: "(int \<times> nat) list" and d :: nat
  assume "rate_ok (max 1 (rpm e)) t tss (map fst sts)"
  then show "rate_ok (max 1 (rpm e)) (t + int d) tss (map fst sts)"
    by (rule rate_ok_advance) simp
qed (simp_all add: rate_ok_prune)

section \<open>Fields left alone by the operations\<close>

lemma loop_fields [simp]:
  "results (processQueue_loop e s) = results s"
  "settled (processQueue_loop e s) = settled s"
  "returned (processQueue_loop e s) = returned s"
  "calling (processQueue_loop e s) = calling s"
  "now (processQueue_loop e s) = now s"
  "unhandled (processQueue_loop e s) = unhandled s"
  by (simp_all add: processQueue_loop_closed setTimeout_def pruned_def admit_def)

lemma processQueue_fields [simp]:
  "results (processQueue e s) = results s"
  "settled (processQueue e s) = settled s"
  "returned (processQueue e s) = returned s"
  "calling (processQueue e s) = calling s"
  "now (processQueue e s) = now s"
  "unhandled (processQueue e s) = unhandled s"
  by (simp_all add: processQueue_def)

lemma run_task_fields [simp]:
  "results (run_task e i a s) = results s"
  "settled (run_task e i a s) = settled s"
  "returned (run_task e i a s) = returned s"
  "activeTaskCount (run_task e i a s) = activeTaskCount s"
  "taskQueue (run_task e i a s) = taskQueue s"
  "now (run_task e i a s) = now s"
  "unhandled (run_task e i a s) = unhandled s"
  by (simp_all add: run_task_closed setTimeout_def pruned_def)

lemma completeTask_fields [simp]:
  "results (completeTask s) = results s"
  "settled (completeTask s) = settled s"
  "returned (completeTask s) = returned s"
  "activeTaskCount (completeTask s) = activeTaskCount s - 1"
  "taskQueue (completeTask s) = taskQueue s"
  "calling (completeTask s) = calling s"
  "now (completeTask s) = now s"
  "timers (completeTask s) = timers s @ [(now s + 50, CbProcessQueue)]"
  "unhandled (completeTask s) = unhandled s"
  by (simp_all add: completeTask_def setTimeout_def)

lemma on_error_fields [simp]:
  "settled (on_error e err s) = settled s"
  "returned (on_error e err s) = returned s"
  "activeTaskCount (on_error e err s) = activeTaskCount s"
  "taskQueue (on_error e err s) = taskQueue s"
  "calling (on_error e err s) = calling s"
  "timers (on_error e err s) = timers s"
  "now (on_error e err s) = now s"
  by (simp_all add: on_error_def block_requests_def split: option.splits retry_parse.splits)

lemma resume_fields [simp]:
  "results (resume_acquire e i s) = results s"
  "settled (resume_acquire e i s) = settled s"
  "returned (resume_acquire e i s) = returned s"
  "activeTaskCount (resume_acquire e i s) = activeTaskCount s"
  "taskQueue (resume_acquire e i s) = taskQueue s"
  "unhandled (resume_acquire e i s) = unhandled s"
  by (simp_all add: resume_acquire_def split: jsval.splits)

lemma executeTask_fields [simp]:
  "settled (executeTask e i s) = settled s"
  "returned (executeTask e i s) = returned s"
  "taskQueue (executeTask e i s) = taskQueue s"
  by (simp_all add: executeTask_def split: jsval.splits)

lemma poll_fields [simp]:
  "results (poll s) = results s"
  "settled (poll s) = settled s"
  "activeTaskCount (poll s) = activeTaskCount s"
  "taskQueue (poll s) = taskQueue s"
  "unhandled (poll s) = unhandled s"
  by (simp_all add: poll_def setTimeout_def)

lemma settle_eq:
  assumes "settle e i out s = Some s'"
  obtains args where "map_of (calling s) i = Some args"
    and "s' = completeTask
           (case out of
              Resolved v \<Rightarrow> s\<lparr>calling := filter (\<lambda>c. fst c \<noteq> i) (calling s),
                            settled := settled s @ [(i, args, out)],
                            results := (results s)[i := Some (stored out)]\<rparr>
            | Rejected err \<Rightarrow> on_error e err
                           (s\<lparr>calling := filter (\<lambda>c. fst c \<noteq> i) (calling s),
                              settled := settled s @ [(i, args, out)],
                              results := (results s)[i := Some (stored out)]\<rparr>))"
  using assms by (auto simp: settle_def Let_def split: option.splits)

lemma settle_fields:
  assumes "settle e i out s = Some s'"
  shows "results s' = (results s)[i := Some (stored out)]"
    and "\<exists>args. map_of (calling s) i = Some args \<and> settled s' = settled s @ [(i, args, out)]"
    and "returned s' = returned s"
    and "activeTaskCount s' = activeTaskCount s - 1"
    and "taskQueue s' = taskQueue s"
    and "calling s' = filter (\<lambda>c. fst c \<noteq> i) (calling s)"
    and "timers s' = timers s @ [(now s + 50, CbProcessQueue)]"
    and "now s' = now s"
  using assms by (auto elim!: settle_eq split: outcome.splits)

lemma settle_resolved_unhandled:
  assumes "settle e i (Resolved v) s = Some s'"
  shows "unhandled s' = unhandled s"
  using assms by (auto elim!: settle_eq)

section \<open>Results and settlements\<close>

lemma expected_mono: "expected e st i r \<Longrightarrow> expected e (st @ st') i r"
  by (auto simp: expected_def split: jsval.splits)

lemma struct_pending_results:
  assumes "struct_gen e H s" "i \<in># pending s"
  shows "i < length (fnArgs e)" "results s ! i = None"
proof -
  have k: "i < length (fnArgs e) - length (taskQueue s)"
    using assms unfolding struct_gen_def core_def by auto
  then show iN: "i < length (fnArgs e)" by simp
  show "results s ! i = None"
    using assms iN unfolding struct_gen_def core_def by auto
qed

lemma calling_pending:
  assumes "map_of (calling s) i = Some a"
  shows "i \<in># pending s" "(i, a) \<in> set (calling s)"
proof -
  show c: "(i, a) \<in> set (calling s)" using assms by (rule map_of_SomeD)
  then have "i \<in> fst ` set (calling s)" by force
  then show "i \<in># pending s" by (simp add: pending_def)
qed

lemma res_settle:
  assumes st: "struct_gen e {#} s" and r: "res_ok e (results s) (settled s)"
    and s: "settle e i out s = Some s'"
  shows "res_ok e (results s') (settled s')"
proof -
  obtain args where m: "map_of (calling s) i = Some args"
    and set': "settled s' = settled s @ [(i, args, out)]"
    using settle_fields(2)[OF s] by blast
  have res': "results s' = (results s)[i := Some (stored out)]" by (rule settle_fields(1)[OF s])
  have iN: "i < length (fnArgs e)" and none: "results s ! i = None"
    using struct_pending_results[OF st calling_pending(1)[OF m]] by auto
  have arr: "fnArgs e ! i = JArr args"
    using st calling_pending(2)[OF m] unfolding struct_gen_def calling_ok_def by blast
  have len: "length (results s) = length (fnArgs e)"
    using st unfolding struct_gen_def core_def by blast
  have notin: "i \<notin> fst ` set (settled s)" using r none unfolding res_ok_def by blast
  show ?thesis
    unfolding res_ok_def res' set'
  proof (intro conjI allI impI ballI)
    fix j r' assume j: "j < length (fnArgs e)" and v: "(results s)[i := Some (stored out)] ! j = Some r'"
    show "expected e (settled s @ [(i, args, out)]) j r'"
    proof (cases "j = i")
      case True
      then have "r' = stored out" using v iN len by simp
      then show ?thesis using True arr by (auto simp: expected_def)
    next
      case False
      then have "results s ! j = Some r'" using v by simp
      then have "expected e (settled s) j r'" using r j unfolding res_ok_def by blast
      then show ?thesis by (rule expected_mono)
    qed
  next
    show "distinct (map fst (settled s @ [(i, args, out)]))"
      using r notin by (simp add: res_ok_def)
  next
    fix j assume "j \<in> fst ` set (settled s @ [(i, args, out)])"
    then have "j = i \<or> j \<in> fst ` set (settled s)" by auto
    then show "j < length (fnArgs e)" using iN r unfolding res_ok_def by blast
  next
    fix j assume "j \<in> fst ` set (settled s @ [(i, args, out)])"
    then have "j = i \<or> j \<in> fst ` set (settled s)" by auto
    then show "(results s)[i := Some (stored out)] ! j \<noteq> None"
      using iN len r unfolding res_ok_def by (cases "j = i") auto
  qed
qed

lemma res_executeTask:
  assumes r: "res_ok e (results s) (settled s)" and len: "length (results s) = length (fnArgs e)"
  shows "res_ok e (results (executeTask e i s)) (settled s)"
proof (cases "i < length (fnArgs e) \<and> (\<forall>a. fnArgs e ! i \<noteq> JArr a) \<and>
               converts_to_string (fnArgs e ! i)")
  case False
  then have "results (executeTask e i s) = results s"
    by (auto simp: executeTask_def split: jsval.splits)
  then show ?thesis using r by simp
next
  case True
  then have res': "results (executeTask e i s) = (results s)[i := Some (failure args_error)]"
    by (auto simp: executeTask_def split: jsval.splits)
  have ex: "expected e (settled s) i (failure args_error)"
    using True by (auto simp: expected_def split: jsval.splits)
  show ?thesis
    unfolding res_ok_def res'
  proof (intro conjI allI impI ballI)
    fix j r' assume j: "j < length (fnArgs e)"
      and v: "(results s)[i := Some (failure args_error)] ! j = Some r'"
    show "expected e (settled s) j r'"
    proof (cases "j = i")
      case True
      then show ?thesis using v j len ex by simp
    next
      case False
      then show ?thesis using v r j unfolding res_ok_def by simp
    qed
  next
    show "distinct (map fst (settled s))" using r by (simp add: res_ok_def)
  next
    fix j assume "j \<in> fst ` set (settled s)"
    then show "j < length (fnArgs e)" using r unfolding res_ok_def by blast
  next
    fix j assume "j \<in> fst ` set (settled s)"
    then show "(results s)[i := Some (failure args_error)] ! j \<noteq> None"
      using True len r unfolding res_ok_def by (cases "j = i") auto
  qed
qed

lemma res_turn:
  assumes st: "struct_gen e {#} s" and r: "res_ok e (results s) (settled s)"
    and s: "turn e ev s = Some s'"
  shows "res_ok e (results s') (settled s')"
proof (cases ev)
  case (Advance d)
  then show ?thesis using r s by auto
next
  case (Settle i out)
  then show ?thesis using res_settle[OF st r] s by simp
next
  case (Fire k)
  let ?s0 = "s\<lparr>timers := take k (timers s) @ drop (Suc k) (timers s)\<rparr>"
  have s': "s' = run_callback e (snd (timers s ! k)) ?s0"
    using s Fire by (auto simp: fire_def split: if_splits)
  have len: "length (results ?s0) = length (fnArgs e)"
    using st unfolding struct_gen_def core_def by simp
  show ?thesis
  proof (cases "snd (timers s ! k)")
    case (CbExecuteTask i)
    then show ?thesis using res_executeTask[of e ?s0 i] r len s' by simp
  qed (use r s' in simp_all)
qed

lemma returned_turn:
  assumes "turn e ev s = Some s'"
  shows "returned s' = returned s \<or>
         (returned s' = Some (results s') \<and> activeTaskCount s' \<le> 0 \<and> taskQueue s' = [])"
proof (cases ev)
  case (Advance d)
  then show ?thesis using assms by auto
next
  case (Settle i out)
  then show ?thesis using settle_fields(3)[of e i out s s'] assms by simp
next
  case (Fire k)
  let ?s0 = "s\<lparr>timers := take k (timers s) @ drop (Suc k) (timers s)\<rparr>"
  have s': "s' = run_callback e (snd (timers s ! k)) ?s0"
    using assms Fire by (auto simp: fire_def split: if_splits)
  show ?thesis
    by (cases "snd (timers s ! k)") (auto simp: s' poll_def setTimeout_def)
qed

lemma pending_empty:
  assumes "struct_gen e {#} s" "activeTaskCount s = 0"
  shows "pending s = {#}"
  using assms unfolding struct_gen_def core_def by simp

lemma idle_turn:
  assumes st: "struct_gen e {#} s" and a: "activeTaskCount s = 0" and q: "taskQueue s = []"
    and s: "turn e ev s = Some s'"
  shows "results s' = results s \<and> activeTaskCount s' = 0 \<and> taskQueue s' = []"
proof (cases ev)
  case (Advance d)
  then show ?thesis using s a q by auto
next
  case (Settle i out)
  then obtain args where "map_of (calling s) i = Some args"
    using s settle_fields(2)[of e i out s s'] by auto
  then have "i \<in># pending s" by (rule calling_pending(1))
  then show ?thesis using pending_empty[OF st a] by simp
next
  case (Fire k)
  let ?s0 = "s\<lparr>timers := take k (timers s) @ drop (Suc k) (timers s)\<rparr>"
  have k: "k < length (timers s)" and s': "s' = run_callback e (snd (timers s ! k)) ?s0"
    using s Fire by (auto simp: fire_def split: if_splits)
  have "cb_task (snd (timers s ! k)) \<subseteq># pending s"
    using timer_tasks_remove[OF k] by (simp add: pending_def)
  then have none: "cb_task (snd (timers s ! k)) = {#}"
    using pending_empty[OF st a] by simp
  have np: "\<not> processingQueue ?s0" using st by (simp add: struct_gen_def)
  show ?thesis
  proof (cases "snd (timers s ! k)")
    case CbProcessQueue
    then show ?thesis using s' a q by (simp add: processQueue_closed[OF np])
  next
    case CbPoll
    then show ?thesis using s' a q by simp
  qed (use none in simp_all)
qed

lemma ret_turn:
  assumes st: "struct_gen e {#} s" and r: "ret_ok s" and s: "turn e ev s = Some s'"
  shows "ret_ok s'"
proof (cases "returned s")
  case None
  have "0 \<le> activeTaskCount s'"
    using struct_inv_core(2)[OF struct_turn[OF st s]] .
  then show ?thesis using returned_turn[OF s] None by (auto simp: ret_ok_def)
next
  case (Some rs)
  then have a: "activeTaskCount s = 0" and q: "taskQueue s = []" and rs: "rs = results s"
    using r by (auto simp: ret_ok_def)
  have idle: "results s' = results s \<and> activeTaskCount s' = 0 \<and> taskQueue s' = []"
    by (rule idle_turn[OF st a q s])
  then show ?thesis using returned_turn[OF s] Some rs by (auto simp: ret_ok_def)
qed

lemma good_step:
  assumes "good e s" "step e ev s = Some s'"
  shows "good e s'"
proof -
  have st: "struct_gen e {#} s"
    using assms(1) step_turn(1)[OF assms(2)] by (simp add: good_def struct_invD)
  have t: "turn e ev s = Some s'" by (rule step_turn(2)[OF assms(2)])
  show ?thesis
    using struct_turn[OF st t] res_turn[OF st _ t] ret_turn[OF st _ t] assms(1)
    by (simp add: good_def)
qed

lemma good_start: "good e (rpmControlledBatch e t0)"
proof -
  have 1: "res_ok e (results (rpmControlledBatch e t0)) (settled (rpmControlledBatch e t0))"
    by (simp add: rpmControlledBatch_def initial_def res_ok_def)
  have "0 \<le> activeTaskCount (rpmControlledBatch e t0)"
    using struct_start[of e t0] unfolding struct_gen_def core_def by simp
  then have 2: "ret_ok (rpmControlledBatch e t0)"
    by (auto simp: rpmControlledBatch_def ret_ok_def poll_def setTimeout_def initial_def
          split: if_splits)
  show ?thesis using struct_start 1 2 by (simp add: good_def struct_invI)
qed

lemma good_reachable: "exec e evs (rpmControlledBatch e t0) = Some s \<Longrightarrow> good e s"
  by (rule exec_invariant[where P = "good e"]) (auto simp: good_start intro: good_step)

lemma exec_append:
  "exec e (evs @ evs') s = (case exec e evs s of None \<Rightarrow> None | Some s' \<Rightarrow> exec e evs' s')"
  by (induction evs arbitrary: s) (auto split: option.splits)

section \<open>Admission\<close>

lemma processQueue_admits:
  assumes "\<not> processingQueue s"
  shows "(taskQueue (processQueue e s) = taskQueue s \<and> activeTaskCount (processQueue e s) = activeTaskCount s)
       \<or> (activeTaskCount s < maxConcurrent e \<and>
          length (taskQueue (processQueue e s)) < length (taskQueue s) \<and>
          activeTaskCount (processQueue e s) =
            activeTaskCount s + int (length (taskQueue s) - length (taskQueue (processQueue e s))) \<and>
          activeTaskCount (processQueue e s) \<le> maxConcurrent e)"
  by (auto simp: processQueue_closed[OF assms] setTimeout_def pruned_def admit_def admit_count_def
        min_def)

lemma executeTask_active:
  "activeTaskCount (executeTask e i s) = activeTaskCount s \<or>
   activeTaskCount (executeTask e i s) = activeTaskCount s - 1"
  by (auto simp: executeTask_def split: jsval.splits)

lemma turn_active:
  assumes np: "\<not> processingQueue s" and s: "turn e ev s = Some s'"
  shows "(taskQueue s' = taskQueue s \<and> activeTaskCount s' \<le> activeTaskCount s)
       \<or> (activeTaskCount s < maxConcurrent e \<and>
          length (taskQueue s') < length (taskQueue s) \<and>
          activeTaskCount s' = activeTaskCount s + int (length (taskQueue s) - length (taskQueue s')) \<and>
          activeTaskCount s' \<le> maxConcurrent e)"
proof (cases ev)
  case (Advance d)
  then show ?thesis using s by auto
next
  case (Settle i out)
  then show ?thesis using settle_fields(4,5)[of e i out s s'] s by simp
next
  case (Fire k)
  let ?s0 = "s\<lparr>timers := take k (timers s) @ drop (Suc k) (timers s)\<rparr>"
  have s': "s' = run_callback e (snd (timers s ! k)) ?s0"
    using s Fire by (auto simp: fire_def split: if_splits)
  have np0: "\<not> processingQueue ?s0" using np by simp
  show ?thesis
  proof (cases "snd (timers s ! k)")
    case CbProcessQueue
    then show ?thesis using processQueue_admits[OF np0, of e] s' by auto
  next
    case (CbExecuteTask i)
    then show ?thesis using executeTask_active[of e i ?s0] s' by auto
  qed (simp_all add: s')
qed

lemma cap_reachable:
  assumes "exec e evs (rpmControlledBatch e t0) = Some s"
  shows "activeTaskCount s \<le> max 0 (maxConcurrent e)"
proof -
  have "struct_inv e s \<and> activeTaskCount s \<le> max 0 (maxConcurrent e)"
  proof (rule exec_invariant[OF assms])
    have "\<not> processingQueue (initial e t0)" by (simp add: initial_def)
    from processQueue_admits[OF this, of e]
    have "activeTaskCount (processQueue e (initial e t0)) \<le> max 0 (maxConcurrent e)"
      by (auto simp: initial_def)
    then show "struct_inv e (rpmControlledBatch e t0) \<and>
               activeTaskCount (rpmControlledBatch e t0) \<le> max 0 (maxConcurrent e)"
      by (simp add: struct_start struct_invI) (simp add: rpmControlledBatch_def)
  next
    fix s ev s'
    assume a: "struct_inv e s \<and> activeTaskCount s \<le> max 0 (maxConcurrent e)"
      and s: "step e ev s = Some s'"
    have "\<not> processingQueue s" using a struct_inv_np by blast
    then have "activeTaskCount s' \<le> max 0 (maxConcurrent e)"
      using turn_active[OF _ step_turn(2)[OF s]] a by auto
    then show "struct_inv e s' \<and> activeTaskCount s' \<le> max 0 (maxConcurrent e)"
      using struct_step a s by blast
  qed
  then show ?thesis ..
qed

lemma slot_wait_empty: "\<not> gt0 (slot_wait r t [])"
  by (simp add: slot_wait_def prune_def)

section \<open>No lost wake-up\<close>

lemma mem_remove_nth:
  assumes "x \<in> set xs" "x \<noteq> xs ! k"
  shows "x \<in> set (take k xs @ drop (Suc k) xs)"
proof -
  obtain j where j: "j < length xs" "xs ! j = x" using assms(1) by (auto simp: in_set_conv_nth)
  then have "j \<noteq> k" using assms(2) by auto
  then consider "j < k" | "k < j" by linarith
  then show ?thesis
  proof cases
    case 1
    then have "take k xs ! j = x" "j < length (take k xs)" using j by simp_all
    then have "x \<in> set (take k xs)" by (metis nth_mem)
    then show ?thesis by simp
  next
    case 2
    then have "drop (Suc k) xs ! (j - Suc k) = x" "j - Suc k < length (drop (Suc k) xs)"
      using j by simp_all
    then have "x \<in> set (drop (Suc k) xs)" by (metis nth_mem)
    then show ?thesis by simp
  qed
qed

lemma cb_remove_nth:
  assumes "cb \<in> snd ` set xs" "cb \<noteq> snd (xs ! k)"
  shows "cb \<in> snd ` set (take k xs @ drop (Suc k) xs)"
proof -
  obtain x where x: "x \<in> set xs" "snd x = cb" using assms(1) by auto
  then have "x \<noteq> xs ! k" using assms(2) by auto
  then have "x \<in> set (take k xs @ drop (Suc k) xs)" using x(1) by (rule mem_remove_nth[rotated])
  then show ?thesis using x(2) by force
qed

lemma loop_timers: "\<exists>more. timers (processQueue_loop e s) = timers s @ more"
  by (simp add: processQueue_loop_closed setTimeout_def pruned_def admit_def)

lemma processQueue_timers: "\<exists>more. timers (processQueue e s) = timers s @ more"
  using loop_timers[of e "s\<lparr>processingQueue := True\<rparr>"] by (auto simp: processQueue_def)

lemma run_task_timers: "\<exists>more. timers (run_task e i a s) = timers s @ more"
  by (simp add: run_task_closed setTimeout_def pruned_def)

lemma executeTask_timers: "\<exists>more. timers (executeTask e i s) = timers s @ more"
  using run_task_timers by (auto simp: executeTask_def split: jsval.splits)

lemma resume_timers: "\<exists>more. timers (resume_acquire e i s) = timers s @ more"
  using run_task_timers by (auto simp: resume_acquire_def split: jsval.splits)

lemma poll_timers: "\<exists>more. timers (poll s) = timers s @ more"
  by (simp add: poll_def setTimeout_def)

lemma callback_timers: "\<exists>more. timers (run_callback e cb s) = timers s @ more"
  by (cases cb) (simp_all add: processQueue_timers executeTask_timers resume_timers poll_timers)

lemma callback_keeps:
  assumes "c \<in> snd ` set (timers s)"
  shows "c \<in> snd ` set (timers (run_callback e cb s))"
proof -
  obtain more where "timers (run_callback e cb s) = timers s @ more"
    using callback_timers by blast
  then show ?thesis using assms by auto
qed

lemma poll_live1: "returned (poll s) = None \<Longrightarrow> CbPoll \<in> snd ` set (timers (poll s))"
  by (auto simp: poll_def setTimeout_def split: if_splits)

lemma processQueue_live2:
  assumes np: "\<not> processingQueue s" and m: "0 < maxConcurrent e"
    and q: "taskQueue (processQueue e s) \<noteq> []" and a: "activeTaskCount (processQueue e s) = 0"
    and a0: "0 \<le> activeTaskCount s"
  shows "CbProcessQueue \<in> snd ` set (timers (processQueue e s))"
proof -
  have g: "activeTaskCount s < maxConcurrent e \<and> taskQueue s \<noteq> []"
  proof (rule ccontr)
    assume n: "\<not> ?thesis"
    then have eq: "processQueue e s = s" by (simp add: processQueue_closed[OF np] cong: conj_cong)
    then have "taskQueue s \<noteq> []" "activeTaskCount s = 0" using q a by simp_all
    then show False using n m by simp
  qed
  show ?thesis
  proof (cases "gt0 (slot_wait (rpm e) (now s) (requestTimestamps s))")
    case True
    then show ?thesis using g by (simp add: processQueue_closed[OF np] setTimeout_def pruned_def)
  next
    case False
    then have "activeTaskCount (processQueue e s) = activeTaskCount s + int (admit_count e s)"
      using g by (simp add: processQueue_closed[OF np] admit_def pruned_def)
    moreover have "0 < admit_count e s" using g by (simp add: admit_count_def)
    ultimately show ?thesis using a a0 by simp
  qed
qed

lemma struct_active_pos:
  assumes "struct_gen e {#} s" "i \<in># pending s"
  shows "0 < activeTaskCount s"
proof -
  have "pending s \<noteq> {#}" using assms(2) by auto
  then have "0 < size (pending s)" by (simp add: nonempty_has_size)
  then show ?thesis using assms(1) unfolding struct_gen_def core_def by simp
qed

lemma struct_active_nonneg: "struct_gen e {#} s \<Longrightarrow> 0 \<le> activeTaskCount s"
  unfolding struct_gen_def core_def by simp

lemma live_turn:
  assumes st: "struct_gen e {#} s" and l: "live_inv s" and m: "0 < maxConcurrent e"
    and s: "turn e ev s = Some s'"
  shows "live_inv s'"
proof (cases ev)
  case (Advance d)
  then show ?thesis using l s by (auto simp: live_inv_def)
next
  case (Settle i out)
  have t: "timers s' = timers s @ [(now s + 50, CbProcessQueue)]" and r: "returned s' = returned s"
    using settle_fields(3,7)[of e i out s s'] s Settle by simp_all
  show ?thesis using l unfolding live_inv_def t r by auto
next
  case (Fire k)
  let ?s0 = "s\<lparr>timers := take k (timers s) @ drop (Suc k) (timers s)\<rparr>"
  let ?cb = "snd (timers s ! k)"
  have k: "k < length (timers s)" and s': "s' = run_callback e ?cb ?s0"
    using s Fire by (auto simp: fire_def split: if_splits)
  have np0: "\<not> processingQueue ?s0" using struct_np[OF st] by simp
  have keep: "c \<in> snd ` set (timers s')" if "c \<in> snd ` set (timers s)" "c \<noteq> ?cb" for c
  proof -
    have "c \<in> snd ` set (timers ?s0)" using cb_remove_nth[OF that] by simp
    then show ?thesis unfolding s' by (rule callback_keeps)
  qed
  have sub: "cb_task ?cb \<subseteq># pending s"
    using timer_tasks_remove[OF k] by (simp add: pending_def)
  have L1: "CbPoll \<in> snd ` set (timers s')" if rn: "returned s' = None"
  proof (cases "?cb = CbPoll")
    case True
    then show ?thesis using rn poll_live1[of ?s0] s' by simp
  next
    case False
    have "returned s = None"
      using rn s' by (cases ?cb) (simp_all add: False)
    then have "CbPoll \<in> snd ` set (timers s)" using l by (simp add: live_inv_def)
    moreover have "CbPoll \<noteq> ?cb" using False by simp
    ultimately show ?thesis by (rule keep)
  qed
  have L2: "CbProcessQueue \<in> snd ` set (timers s')"
    if q: "taskQueue s' \<noteq> []" and a: "activeTaskCount s' = 0"
  proof (cases ?cb)
    case CbProcessQueue
    have a0: "0 \<le> activeTaskCount ?s0" using struct_active_nonneg[OF st] by simp
    have eq: "s' = processQueue e ?s0" using s' CbProcessQueue by simp
    show ?thesis
      using processQueue_live2[OF np0 m _ _ a0] q a unfolding eq by blast
  next
    case (CbExecuteTask i)
    show ?thesis
    proof (cases "activeTaskCount s' = activeTaskCount s")
      case True
      have "i \<in># pending s" using sub CbExecuteTask by (simp add: mset_subset_eq_insertD)
      then have "0 < activeTaskCount s" by (rule struct_active_pos[OF st])
      then show ?thesis using True a by simp
    next
      case False
      have eq: "s' = executeTask e i ?s0" using s' CbExecuteTask by simp
      have "activeTaskCount (executeTask e i ?s0) \<noteq> activeTaskCount ?s0"
        using False eq by simp
      then have "executeTask e i ?s0 =
          completeTask (?s0\<lparr>results := (results ?s0)[i := Some (failure args_error)]\<rparr>)"
        by (auto simp: executeTask_def split: jsval.splits if_splits)
      then have "timers s' = timers ?s0 @ [(now ?s0 + 50, CbProcessQueue)]"
        unfolding eq by (simp add: completeTask_def setTimeout_def)
      then show ?thesis by simp
    qed
  next
    case (CbAcquire i)
    have "i \<in># pending s" using sub CbAcquire by (simp add: mset_subset_eq_insertD)
    then have "0 < activeTaskCount s" by (rule struct_active_pos[OF st])
    moreover have "activeTaskCount s' = activeTaskCount s" using s' CbAcquire by simp
    ultimately show ?thesis using a by simp
  next
    case CbPoll
    have "taskQueue s \<noteq> []" "activeTaskCount s = 0" using q a s' CbPoll by simp_all
    then have "CbProcessQueue \<in> snd ` set (timers s)" using l by (simp add: live_inv_def)
    moreover have "CbProcessQueue \<noteq> ?cb" using CbPoll by simp
    ultimately show ?thesis by (rule keep)
  qed
  show ?thesis using L1 L2 by (simp add: live_inv_def)
qed

lemma live_start:
  assumes "0 < maxConcurrent e"
  shows "live_inv (rpmControlledBatch e t0)"
proof -
  let ?s = "processQueue e (initial e t0)"
  have np: "\<not> processingQueue (initial e t0)" by (simp add: initial_def)
  have a0: "0 \<le> activeTaskCount (initial e t0)" by (simp add: initial_def)
  have 1: "returned (poll ?s) = None \<longrightarrow> CbPoll \<in> snd ` set (timers (poll ?s))"
    using poll_live1 by blast
  have 2: "CbProcessQueue \<in> snd ` set (timers (poll ?s))"
    if "taskQueue (poll ?s) \<noteq> []" "activeTaskCount (poll ?s) = 0"
  proof -
    have "CbProcessQueue \<in> snd ` set (timers ?s)"
      using processQueue_live2[OF np assms _ _ a0] that by simp
    then show ?thesis using callback_keeps[of CbProcessQueue ?s e CbPoll] by simp
  qed
  show ?thesis using 1 2 by (simp add: live_inv_def rpmControlledBatch_def)
qed

section \<open>Completion stays possible\<close>

text \<open>
  From a state of a live process (no rejected \<open>executeTask\<close>) that satisfies the
  invariants, advancing the clock to the horizon makes every timer due and empties the
  window, so a pending task can start at once; settling an invocation or failing a
  non-array task lowers the number of tasks not yet completed, and when none is left the
  polling timer returns. Failing a non-array task needs its argument tuple to convert to a
  string; the continuation built here resolves every invocation, so the process stays
  live.
\<close>

lemma fold_max_ge: "(a::int) \<le> fold max xs a"
proof (induction xs arbitrary: a)
  case Nil
  then show ?case by simp
next
  case (Cons x xs)
  have "a \<le> max x a" by simp
  also have "\<dots> \<le> fold max xs (max x a)" by (rule Cons.IH)
  finally show ?case by simp
qed

lemma fold_max_mem: "x \<in> set xs \<Longrightarrow> (x::int) \<le> fold max xs a"
proof (induction xs arbitrary: a)
  case Nil
  then show ?case by simp
next
  case (Cons y ys)
  show ?case
  proof (cases "x = y")
    case True
    have "x \<le> max y a" using True by simp
    also have "\<dots> \<le> fold max ys (max y a)" by (rule fold_max_ge)
    finally show ?thesis by simp
  next
    case False
    then have "x \<in> set ys" using Cons.prems by simp
    then show ?thesis using Cons.IH by simp
  qed
qed

lemma horizon_now: "now s \<le> horizon s"
  unfolding horizon_def by (rule fold_max_ge)

lemma horizon_timer: "k < length (timers s) \<Longrightarrow> fst (timers s ! k) \<le> horizon s"
  unfolding horizon_def by (rule fold_max_mem) simp

lemma horizon_prune: "prune (horizon s) (requestTimestamps s) = []"
proof -
  have "t + windowDuration \<le> horizon s" if "t \<in> set (requestTimestamps s)" for t
    unfolding horizon_def using that by (intro fold_max_mem) simp
  then have "\<not> (horizon s - t < windowDuration)" if "t \<in> set (requestTimestamps s)" for t
    using that by fastforce
  then show ?thesis by (simp add: prune_def)
qed

lemma fire_at_horizon:
  assumes "k < length (timers s)" "unhandled s = 0"
  shows "exec e [Advance (nat (horizon s - now s)), Fire k] s =
           Some (run_callback e (snd (timers s ! k))
                   (s\<lparr>now := horizon s, timers := take k (timers s) @ drop (Suc k) (timers s)\<rparr>))"
  using assms horizon_now[of s] horizon_timer[OF assms(1)] by (simp add: fire_def step_def)

lemma run_task_granted:
  assumes "prune (now s) (requestTimestamps s) = []" "0 < rpm e"
  shows "run_task e i args s =
           s\<lparr>requestTimestamps := [now s], calling := calling s @ [(i, args)],
             started := started s @ [(now s, i)]\<rparr>"
proof -
  have "slot_wait (rpm e) (now s) (requestTimestamps s) = Num 0"
    using assms by (simp add: slot_wait_def)
  then show ?thesis using assms(1) by (simp add: run_task_closed pruned_def)
qed

lemma processQueue_granted:
  assumes "prune (now s) (requestTimestamps s) = []" "0 < rpm e" "\<not> processingQueue s"
    and "activeTaskCount s = 0" "taskQueue s \<noteq> []" "0 < maxConcurrent e"
  shows "0 < activeTaskCount (processQueue e s) \<and> remaining (processQueue e s) = remaining s"
proof -
  have w: "slot_wait (rpm e) (now s) (requestTimestamps s) = Num 0"
    using assms(1,2) by (simp add: slot_wait_def)
  have eq: "processQueue e s = admit (admit_count e s) (pruned s)"
    using assms w by (simp add: processQueue_closed)
  have n: "0 < admit_count e s" "admit_count e s \<le> length (taskQueue s)"
    using assms by (simp_all add: admit_count_def)
  show ?thesis unfolding eq using n assms(4) by (simp add: admit_def pruned_def remaining_def)
qed

lemma timer_tasks_nonempty:
  "timer_tasks tm \<noteq> {#} \<Longrightarrow> \<exists>k < length tm. cb_task (snd (tm ! k)) \<noteq> {#}"
proof (induction tm)
  case Nil
  then show ?case by simp
next
  case (Cons p tm)
  show ?case
  proof (cases "cb_task (snd p) = {#}")
    case False
    then have "0 < length (p # tm) \<and> cb_task (snd ((p # tm) ! 0)) \<noteq> {#}" by simp
    then show ?thesis by blast
  next
    case True
    then have "timer_tasks tm \<noteq> {#}" using Cons.prems by simp
    then obtain k where "k < length tm" "cb_task (snd (tm ! k)) \<noteq> {#}" using Cons.IH by blast
    then have "Suc k < length (p # tm) \<and> cb_task (snd ((p # tm) ! Suc k)) \<noteq> {#}" by simp
    then show ?thesis by blast
  qed
qed

lemma ready_step:
  assumes "ready e s" "0 < maxConcurrent e" "step e ev s = Some s'"
  shows "ready e s'"
proof -
  have st: "struct_gen e {#} s"
    using assms(1) step_turn(1)[OF assms(3)] by (simp add: ready_def good_def struct_invD)
  show ?thesis
    using good_step[OF _ assms(3)] live_turn[OF st _ assms(2) step_turn(2)[OF assms(3)]] assms(1)
    by (simp add: ready_def)
qed

lemma ready_struct: "ready e s \<Longrightarrow> unhandled s = 0 \<Longrightarrow> struct_gen e {#} s"
  by (simp add: ready_def good_def struct_invD)

lemma ready_exec:
  assumes "exec e evs s = Some s'" "ready e s" "0 < maxConcurrent e"
  shows "ready e s'"
  by (rule exec_invariant[OF assms(1), where P = "ready e"])
     (use assms ready_step in blast)+

lemma settle_enabled:
  assumes "map_of (calling s) i = Some args"
  shows "\<exists>s'. settle e i out s = Some s'"
  using assms by (simp add: settle_def Let_def)

lemma decrease_by_start:
  assumes r: "ready e s" and u: "unhandled s = 0" and rpm: "0 < rpm e"
    and k: "k < length (timers s)"
    and cb: "cb_task (snd (timers s ! k)) = {#i#}" and arr: "fnArgs e ! i = JArr args"
    and c: "calling s = []"
  shows "\<exists>evs s'. exec e evs s = Some s' \<and> remaining s' < remaining s \<and> unhandled s' = 0"
proof -
  let ?s0 = "s\<lparr>now := horizon s, timers := take k (timers s) @ drop (Suc k) (timers s)\<rparr>"
  let ?s1 = "?s0\<lparr>requestTimestamps := [horizon s], calling := [(i, args)],
                 started := started s @ [(horizon s, i)]\<rparr>"
  have st: "struct_gen e {#} s" by (rule ready_struct[OF r u])
  have "cb_task (snd (timers s ! k)) \<subseteq># pending s"
    using timer_tasks_remove[OF k] by (simp add: pending_def)
  then have ip: "i \<in># pending s" using cb by (simp add: mset_subset_eq_insertD)
  have iN: "i < length (fnArgs e)" by (rule struct_pending_results(1)[OF st ip])
  have pos: "0 < activeTaskCount s" by (rule struct_active_pos[OF st ip])
  have pr: "prune (now ?s0) (requestTimestamps ?s0) = []" using horizon_prune[of s] by simp
  have rt: "run_task e i args ?s0 = ?s1"
    using run_task_granted[OF pr rpm, of i args] c by simp
  have "run_callback e (snd (timers s ! k)) ?s0 = ?s1"
  proof (cases "snd (timers s ! k)")
    case (CbExecuteTask j)
    then show ?thesis using cb iN arr rt by (simp add: executeTask_def)
  next
    case (CbAcquire j)
    then show ?thesis using cb iN arr rt by (simp add: resume_acquire_def)
  qed (use cb in simp_all)
  then have e1: "exec e [Advance (nat (horizon s - now s)), Fire k] s = Some ?s1"
    using fire_at_horizon[OF k u] by simp
  obtain s2 where s2: "settle e i (Resolved JUndef) ?s1 = Some s2"
    using settle_enabled[of ?s1 i args] by auto
  have "activeTaskCount s2 = activeTaskCount s - 1" "taskQueue s2 = taskQueue s"
    using settle_fields(4,5)[OF s2] by simp_all
  then have "remaining s2 < remaining s" using pos by (simp add: remaining_def)
  moreover have "exec e ([Advance (nat (horizon s - now s)), Fire k] @ [Settle i (Resolved JUndef)]) s
                   = Some s2"
    unfolding exec_append e1 using s2 u by (simp add: step_def)
  moreover have "unhandled s2 = 0" using settle_resolved_unhandled[OF s2] u by simp
  ultimately show ?thesis by blast
qed

lemma decrease_active:
  assumes r: "ready e s" and u: "unhandled s = 0" and rpm: "0 < rpm e"
    and pos: "0 < activeTaskCount s"
    and cv: "\<forall>a \<in> set (fnArgs e). converts_to_string a"
  shows "\<exists>evs s'. exec e evs s = Some s' \<and> remaining s' < remaining s \<and> unhandled s' = 0"
proof (cases "calling s")
  case (Cons c cs)
  obtain i args where c: "c = (i, args)" by (cases c)
  have "map_of (calling s) i = Some args" using Cons c by simp
  then obtain s' where s': "settle e i (Resolved JUndef) s = Some s'"
    using settle_enabled by blast
  have "activeTaskCount s' = activeTaskCount s - 1" "taskQueue s' = taskQueue s"
    using settle_fields(4,5)[OF s'] by simp_all
  then have "remaining s' < remaining s" using pos by (simp add: remaining_def)
  moreover have "exec e [Settle i (Resolved JUndef)] s = Some s'" using s' u by (simp add: step_def)
  moreover have "unhandled s' = 0" using settle_resolved_unhandled[OF s'] u by simp
  ultimately show ?thesis by blast
next
  case Nil
  have st: "struct_gen e {#} s" by (rule ready_struct[OF r u])
  have "int (size (pending s)) = activeTaskCount s"
    using st unfolding struct_gen_def core_def by simp
  then have "pending s \<noteq> {#}" using pos by auto
  then have "timer_tasks (timers s) \<noteq> {#}" using Nil by (simp add: pending_def)
  then obtain k where k: "k < length (timers s)" and ne: "cb_task (snd (timers s ! k)) \<noteq> {#}"
    using timer_tasks_nonempty by blast
  let ?s0 = "s\<lparr>now := horizon s, timers := take k (timers s) @ drop (Suc k) (timers s)\<rparr>"
  show ?thesis
  proof (cases "snd (timers s ! k)")
    case (CbAcquire i)
    have "(fst (timers s ! k), CbAcquire i) \<in> set (timers s)"
      using k CbAcquire by (metis nth_mem prod.collapse)
    then obtain args where "fnArgs e ! i = JArr args"
      using st unfolding struct_gen_def acquire_ok_def by blast
    then show ?thesis using decrease_by_start[OF r u rpm k _ _ Nil, of i args] CbAcquire by simp
  next
    case (CbExecuteTask i)
    show ?thesis
    proof (cases "\<exists>args. fnArgs e ! i = JArr args")
      case True
      then show ?thesis using decrease_by_start[OF r u rpm k _ _ Nil, of i] CbExecuteTask by auto
    next
      case False
      have "cb_task (snd (timers s ! k)) \<subseteq># pending s"
        using timer_tasks_remove[OF k] by (simp add: pending_def)
      then have ip: "i \<in># pending s" using CbExecuteTask by (simp add: mset_subset_eq_insertD)
      have iN: "i < length (fnArgs e)" by (rule struct_pending_results(1)[OF st ip])
      let ?s1 = "completeTask (?s0\<lparr>results := (results ?s0)[i := Some (failure args_error)]\<rparr>)"
      have "converts_to_string (fnArgs e ! i)" using cv iN by simp
      then have "executeTask e i ?s0 = ?s1"
        using False iN by (auto simp: executeTask_def split: jsval.splits)
      then have "exec e [Advance (nat (horizon s - now s)), Fire k] s = Some ?s1"
        using fire_at_horizon[OF k u, of e] CbExecuteTask by simp
      moreover have "remaining ?s1 < remaining s" using pos by (simp add: remaining_def)
      moreover have "unhandled ?s1 = 0" using u by simp
      ultimately show ?thesis by blast
    qed
  qed (use ne in simp_all)
qed

lemma admit_from_idle:
  assumes r: "ready e s" and u: "unhandled s = 0" and rpm: "0 < rpm e"
    and m: "0 < maxConcurrent e"
    and a: "activeTaskCount s = 0" and q: "taskQueue s \<noteq> []"
  shows "\<exists>evs s'. exec e evs s = Some s' \<and> remaining s' = remaining s \<and> 0 < activeTaskCount s' \<and>
           unhandled s' = 0"
proof -
  have st: "struct_gen e {#} s" by (rule ready_struct[OF r u])
  have "CbProcessQueue \<in> snd ` set (timers s)" using r a q by (simp add: ready_def live_inv_def)
  then obtain k where k: "k < length (timers s)" and cb: "snd (timers s ! k) = CbProcessQueue"
    by (auto simp: in_set_conv_nth)
  let ?s0 = "s\<lparr>now := horizon s, timers := take k (timers s) @ drop (Suc k) (timers s)\<rparr>"
  have pr: "prune (now ?s0) (requestTimestamps ?s0) = []" using horizon_prune[of s] by simp
  have np: "\<not> processingQueue ?s0" using struct_np[OF st] by simp
  have "0 < activeTaskCount (processQueue e ?s0) \<and> remaining (processQueue e ?s0) = remaining ?s0"
    using processQueue_granted[OF pr rpm np _ _ m] a q by simp
  moreover have "remaining ?s0 = remaining s" by (simp add: remaining_def)
  moreover have "exec e [Advance (nat (horizon s - now s)), Fire k] s = Some (processQueue e ?s0)"
    using fire_at_horizon[OF k u, of e] cb by simp
  moreover have "unhandled (processQueue e ?s0) = 0" using u by simp
  ultimately show ?thesis by metis
qed

lemma decrease:
  assumes r: "ready e s" and u: "unhandled s = 0" and rpm: "0 < rpm e"
    and m: "0 < maxConcurrent e" and pos: "0 < remaining s"
    and cv: "\<forall>a \<in> set (fnArgs e). converts_to_string a"
  shows "\<exists>evs s'. exec e evs s = Some s' \<and> remaining s' < remaining s \<and> unhandled s' = 0"
proof (cases "0 < activeTaskCount s")
  case True
  then show ?thesis using decrease_active[OF r u rpm _ cv] by blast
next
  case False
  have st: "struct_gen e {#} s" by (rule ready_struct[OF r u])
  have a: "activeTaskCount s = 0" using False struct_active_nonneg[OF st] by simp
  have q: "taskQueue s \<noteq> []" using pos a by (simp add: remaining_def)
  obtain evs1 s1 where 1: "exec e evs1 s = Some s1" "remaining s1 = remaining s"
      "0 < activeTaskCount s1" "unhandled s1 = 0"
    using admit_from_idle[OF r u rpm m a q] by blast
  have r1: "ready e s1" by (rule ready_exec[OF 1(1) r m])
  obtain evs2 s2 where 2: "exec e evs2 s1 = Some s2" "remaining s2 < remaining s1"
      "unhandled s2 = 0"
    using decrease_active[OF r1 1(4) rpm 1(3) cv] by blast
  have "exec e (evs1 @ evs2) s = Some s2" using 1(1) 2(1) by (simp add: exec_append)
  then show ?thesis using 2(2,3) 1(2) by metis
qed

lemma can_finish:
  assumes "ready e s" "unhandled s = 0" "0 < rpm e" "0 < maxConcurrent e"
    and cv: "\<forall>a \<in> set (fnArgs e). converts_to_string a"
  shows "\<exists>evs s'. exec e evs s = Some s' \<and> returned s' \<noteq> None"
  using assms(1,2)
proof (induction "remaining s" arbitrary: s rule: less_induct)
  case less
  show ?case
  proof (cases "returned s = None")
    case False
    then have "exec e [] s = Some s \<and> returned s \<noteq> None" by simp
    then show ?thesis by blast
  next
    case rn: True
    show ?thesis
    proof (cases "remaining s = 0")
      case True
      have st: "struct_gen e {#} s" by (rule ready_struct[OF less.prems])
      have a: "activeTaskCount s = 0" and q: "taskQueue s = []"
        using True struct_active_nonneg[OF st] by (simp_all add: remaining_def)
      have "CbPoll \<in> snd ` set (timers s)" using less.prems rn by (simp add: ready_def live_inv_def)
      then obtain k where k: "k < length (timers s)" and cb: "snd (timers s ! k) = CbPoll"
        by (auto simp: in_set_conv_nth)
      let ?s0 = "s\<lparr>now := horizon s, timers := take k (timers s) @ drop (Suc k) (timers s)\<rparr>"
      have "exec e [Advance (nat (horizon s - now s)), Fire k] s = Some (poll ?s0)"
        using fire_at_horizon[OF k less.prems(2), of e] cb by simp
      moreover have "returned (poll ?s0) \<noteq> None" using a q by (simp add: poll_def)
      ultimately show ?thesis by blast
    next
      case False
      then obtain evs1 s1 where 1: "exec e evs1 s = Some s1" "remaining s1 < remaining s"
          "unhandled s1 = 0"
        using decrease[OF less.prems assms(3,4) _ cv] by auto
      have r1: "ready e s1" by (rule ready_exec[OF 1(1) less.prems(1) assms(4)])
      obtain evs2 s2 where 2: "exec e evs2 s1 = Some s2" "returned s2 \<noteq> None"
        using less.hyps[OF 1(2) r1 1(3)] by blast
      have "exec e (evs1 @ evs2) s = Some s2" using 1(1) 2(1) by (simp add: exec_append)
      then show ?thesis using 2(2) by blast
    qed
  qed
qed

lemma ready_reachable:
  assumes "exec e evs (rpmControlledBatch e t0) = Some s" "0 < maxConcurrent e"
  shows "ready e s"
proof (rule ready_exec[OF assms(1) _ assms(2)])
  show "ready e (rpmControlledBatch e t0)"
    using good_start live_start[OF assms(2)] by (simp add: ready_def)
qed

section \<open>The returned array\<close>

lemma settled_turn:
  assumes "turn e ev s = Some s'"
  shows "\<exists>more. settled s' = settled s @ more"
proof (cases ev)
  case (Advance d)
  then show ?thesis using assms by auto
next
  case (Settle i out)
  then show ?thesis using settle_fields(2)[of e i out s s'] assms by auto
next
  case (Fire k)
  let ?s0 = "s\<lparr>timers := take k (timers s) @ drop (Suc k) (timers s)\<rparr>"
  have s': "s' = run_callback e (snd (timers s ! k)) ?s0"
    using assms Fire by (auto simp: fire_def split: if_splits)
  show ?thesis by (cases "snd (timers s ! k)") (simp_all add: s')
qed

lemma settled_exec:
  "exec e evs s = Some s' \<Longrightarrow> \<exists>more. settled s' = settled s @ more"
proof (induction evs arbitrary: s)
  case Nil
  then show ?case by simp
next
  case (Cons ev evs)
  then obtain s1 where 1: "step e ev s = Some s1" and 2: "exec e evs s1 = Some s'"
    by (auto split: option.splits)
  obtain m1 where "settled s1 = settled s @ m1"
    using settled_turn[OF step_turn(2)[OF 1]] by blast
  moreover obtain m2 where "settled s' = settled s1 @ m2" using Cons.IH[OF 2] by blast
  ultimately show ?case by simp
qed

lemma returned_full:
  assumes g: "good e s" and ret: "returned s = Some rs"
  shows "length rs = length (fnArgs e) \<and>
         (\<forall>i < length (fnArgs e). \<exists>r. rs ! i = Some r \<and> expected e (settled s) i r)"
proof -
  have si: "struct_inv e s" and res: "res_ok e (results s) (settled s)" and ro: "ret_ok s"
    using g by (simp_all add: good_def)
  have rs: "rs = results s" and act: "activeTaskCount s = 0" and q: "taskQueue s = []"
    using ro ret by (auto simp: ret_ok_def)
  have st: "struct_gen e {#} s" by (rule struct_inv_idle[OF si act])
  have len: "length rs = length (fnArgs e)"
    using st rs unfolding struct_gen_def core_def by simp
  have "\<exists>r. rs ! i = Some r \<and> expected e (settled s) i r" if i: "i < length (fnArgs e)" for i
  proof -
    have "pending s = {#}" by (rule pending_empty[OF st act])
    then have "results s ! i \<noteq> None"
      using st i q unfolding struct_gen_def core_def by auto
    then obtain r where r: "results s ! i = Some r" by auto
    then have "expected e (settled s) i r" using res i unfolding res_ok_def by blast
    then show ?thesis using r rs by blast
  qed
  then show ?thesis using len by blast
qed

lemma distinct_fst_unique:
  assumes "distinct (map fst xs)" "(i, a) \<in> set xs" "(i, b) \<in> set xs"
  shows "a = b"
  using assms by (rule eq_key_imp_eq_value)

section \<open>Cooldowns\<close>

lemma count_le_length_prune:
  assumes "t - x < windowDuration"
  shows "count (mset tss) x \<le> length (prune t tss)"
proof -
  have "count (mset tss) x = count (mset (prune t tss)) x"
    using assms by (simp add: prune_def)
  also have "\<dots> \<le> size (mset (prune t tss))" by (rule count_le_size)
  finally show ?thesis by simp
qed

lemma cooled_reachable:
  assumes "exec e evs (rpmControlledBatch e t0) = Some s" and rpm: "0 < rpm e"
  shows "cooled e (now s) (requestTimestamps s) (started s) (cooldowns s)"
proof (rule window_invariant[OF assms(1), where Q = "cooled e"])
  show "cooled e t0 [] [] []" by (simp add: cooled_def)
next
  fix t tss sts cs
  assume a: "cooled e t tss sts cs"
  have "count (mset (prune t tss)) (fst c - windowDuration + snd c)
          = count (mset tss) (fst c - windowDuration + snd c)"
    if "t < fst c + snd c" for c :: "int \<times> int"
    using that by (simp add: prune_def)
  then show "cooled e t (prune t tss) sts cs" using a unfolding cooled_def by simp
next
  fix t tss sts cs and i :: nat
  assume a: "cooled e t tss sts cs" and w: "\<not> gt0 (slot_wait (rpm e) t tss)"
  have room: "int (length (prune t tss)) < rpm e"
    using no_wait_room[OF w] rpm by simp
  have late: "fst c + snd c \<le> t" if c: "c \<in> set cs" for c
  proof (rule ccontr)
    assume "\<not> fst c + snd c \<le> t"
    then have lt: "t < fst c + snd c" by simp
    then have "nat (rpm e) \<le> count (mset tss) (fst c - windowDuration + snd c)"
      using a c unfolding cooled_def by blast
    also have "\<dots> \<le> length (prune t tss)"
      using lt by (intro count_le_length_prune) simp
    finally show False using room by simp
  qed
  show "cooled e t (sort (prune t tss @ [t])) (sts @ [(t, i)]) cs"
    unfolding cooled_def
  proof (intro conjI ballI impI)
    fix p assume "p \<in> set (sts @ [(t, i)])"
    then show "fst p \<le> t" using a unfolding cooled_def by auto
  next
    fix c assume c: "c \<in> set cs"
    show "fst c \<le> t" "0 < snd c" using a c unfolding cooled_def by blast+
    show "nat (rpm e) \<le> count (mset (sort (prune t tss @ [t]))) (fst c - windowDuration + snd c)"
      if "t < fst c + snd c"
      using late[OF c] that by simp
  next
    fix c p assume c: "c \<in> set cs" and p: "p \<in> set (sts @ [(t, i)])"
    show "fst p \<le> fst c \<or> fst c + snd c \<le> fst p"
    proof (cases "p \<in> set sts")
      case True
      then show ?thesis using a c unfolding cooled_def by blast
    next
      case False
      then have "fst p = t" using p by auto
      then show ?thesis using late[OF c] by simp
    qed
  qed
next
  fix t tss sts cs and d :: int
  assume a: "cooled e t tss sts cs" and d: "0 < d"
  let ?B = "t - windowDuration + d"
  let ?tss = "sort (tss @ replicate (nat (rpm e)) ?B)"
  have mono: "count (mset tss) x \<le> count (mset ?tss) x" for x by simp
  have new: "nat (rpm e) \<le> count (mset ?tss) ?B" by simp
  show "cooled e t ?tss sts (cs @ [(t, d)])"
    unfolding cooled_def
  proof (intro conjI ballI impI)
    fix p assume "p \<in> set sts"
    then show "fst p \<le> t" using a unfolding cooled_def by blast
  next
    fix c assume c: "c \<in> set (cs @ [(t, d)])"
    show "fst c \<le> t" "0 < snd c" using a c d unfolding cooled_def by auto
    show "nat (rpm e) \<le> count (mset ?tss) (fst c - windowDuration + snd c)"
      if lt: "t < fst c + snd c"
    proof (cases "c \<in> set cs")
      case True
      then have "nat (rpm e) \<le> count (mset tss) (fst c - windowDuration + snd c)"
        using a lt unfolding cooled_def by blast
      then show ?thesis using mono le_trans by blast
    next
      case False
      then have "c = (t, d)" using c by simp
      then show ?thesis using new by simp
    qed
  next
    fix c p assume c: "c \<in> set (cs @ [(t, d)])" and p: "p \<in> set sts"
    show "fst p \<le> fst c \<or> fst c + snd c \<le> fst p"
    proof (cases "c \<in> set cs")
      case True
      then show ?thesis using a p unfolding cooled_def by blast
    next
      case False
      then have "c = (t, d)" using c by simp
      moreover have "fst p \<le> t" using a p unfolding cooled_def by blast
      ultimately show ?thesis by simp
    qed
  qed
next
  fix t tss sts cs and d :: nat
  assume a: "cooled e t tss sts cs"
  show "cooled e (t + int d) tss sts cs"
    unfolding cooled_def
  proof (intro conjI ballI impI)
    fix p assume "p \<in> set sts"
    then have "fst p \<le> t" using a unfolding cooled_def by blast
    then show "fst p \<le> t + int d" by simp
  next
    fix c assume c: "c \<in> set cs"
    have "fst c \<le> t" using a c unfolding cooled_def by blast
    then show "fst c \<le> t + int d" by simp
    show "0 < snd c" using a c unfolding cooled_def by blast
    show "nat (rpm e) \<le> count (mset tss) (fst c - windowDuration + snd c)"
      if "t + int d < fst c + snd c"
    proof -
      have "t < fst c + snd c" using that by simp
      then show ?thesis using a c unfolding cooled_def by blast
    qed
  next
    fix c p assume "c \<in> set cs" "p \<in> set sts"
    then show "fst p \<le> fst c \<or> fst c + snd c \<le> fst p"
      using a unfolding cooled_def by blast
  qed
qed

lemma cooldown_respected:
  assumes "exec e evs (rpmControlledBatch e t0) = Some s" and "0 < rpm e"
    and "(c, d) \<in> set (cooldowns s)" and "(st, i) \<in> set (started s)"
  shows "st \<le> c \<or> c + d \<le> st"
  using cooled_reachable[OF assms(1,2)] assms(3,4) unfolding cooled_def by force

lemma throttle_cooldown:
  assumes "settle e i (Rejected err) s = Some s'"
    and "get_prop ''status'' err = Some (JNum 429)"
    and "get_prop ''errorDetails'' err = Some errorDetails" and "truthy errorDetails"
  shows "cooldowns s' =
           (case parse_retry errorDetails of
              Delay d \<Rightarrow> cooldowns s @ [(now s, d)]
            | Threw \<Rightarrow> cooldowns s @ [(now s, 30000)]
            | NoDelay \<Rightarrow> cooldowns s)"
  using assms
  by (auto elim!: settle_eq
        simp: on_error_def block_requests_def completeTask_def setTimeout_def
        split: retry_parse.splits)

section \<open>A burst of the fixed-bucket variant\<close>

lemma fb_executeTask_array:
  "i < length (fnArgs e) \<Longrightarrow> fnArgs e ! i = JArr args \<Longrightarrow>
   fb_executeTask e i s = fb_limit e i args s"
  by (simp add: fb_executeTask.simps[of e i s])

lemma burst_env_fields:
  assumes "0 < r"
  shows "rpm (burst_env r n) = r" "maxConcurrent (burst_env r n) = r + int n"
    "fnArgs (burst_env r n) = replicate (nat r + n) (JArr [])"
  using assms by (simp_all add: burst_env_def mk_env_def or_default_def Let_def)

text \<open>The initial batch: the first rpm tasks start, the others wait for the end of the bucket.\<close>

lemma fb_launch_burst:
  assumes args: "fnArgs e = replicate N (JArr [])" and rpm: "rpm e = int R"
    and "fb_taskQueue s = [k ..< N]" "fb_now s = 0" "windowStartTime s = 0"
    and "requestsInWindow s = int (min k R)"
    and "fb_started s = map (\<lambda>i. (0, i)) [0 ..< min k R]"
    and "fb_timers s = map (\<lambda>i. (60000, FbResume i)) [R ..< k]"
    and "fb_unhandled s = 0" and "k + m \<le> N"
  shows "fb_now (fb_launch e m s) = 0 \<and> fb_unhandled (fb_launch e m s) = 0 \<and>
         fb_started (fb_launch e m s) = map (\<lambda>i. (0, i)) [0 ..< min (k + m) R] \<and>
         fb_timers (fb_launch e m s) = map (\<lambda>i. (60000, FbResume i)) [R ..< k + m]"
  using assms(3-)
proof (induction m arbitrary: k s)
  case 0
  then show ?case by simp
next
  case (Suc m)
  have kN: "k < N" using Suc.prems(8) by simp
  have q: "fb_taskQueue s = k # [Suc k ..< N]" using Suc.prems(1) kN by (simp add: upt_conv_Cons)
  let ?s0 = "s\<lparr>fb_taskQueue := [Suc k ..< N], executing := insert k (executing s)\<rparr>"
  let ?s1 = "fb_executeTask e k ?s0"
  have ex: "?s1 = fb_limit e k [] ?s0"
    using kN args by (intro fb_executeTask_array) simp_all
  have l: "fb_launch e (Suc m) s = fb_launch e m ?s1" using q by simp
  have "fb_now (fb_launch e m ?s1) = 0 \<and> fb_unhandled (fb_launch e m ?s1) = 0 \<and>
         fb_started (fb_launch e m ?s1) = map (\<lambda>i. (0, i)) [0 ..< min (Suc k + m) R] \<and>
         fb_timers (fb_launch e m ?s1) = map (\<lambda>i. (60000, FbResume i)) [R ..< Suc k + m]"
  proof (rule Suc.IH)
    show "fb_taskQueue ?s1 = [Suc k ..< N]"
      unfolding ex by (simp add: fb_limit_def fb_invoke_def Let_def)
    show "fb_now ?s1 = 0" unfolding ex using Suc.prems(2) by (simp add: fb_limit_def fb_invoke_def Let_def)
    show "windowStartTime ?s1 = 0"
      unfolding ex using Suc.prems(2,3) by (simp add: fb_limit_def fb_invoke_def Let_def)
    show "requestsInWindow ?s1 = int (min (Suc k) R)"
      unfolding ex using Suc.prems(2,3,4) rpm
      by (auto simp: fb_limit_def fb_invoke_def Let_def windowDuration_def min_def)
    show "fb_started ?s1 = map (\<lambda>i. (0, i)) [0 ..< min (Suc k) R]"
      unfolding ex using Suc.prems(2,3,4,5) rpm
      by (auto simp: fb_limit_def fb_invoke_def Let_def windowDuration_def min_def)
    show "fb_timers ?s1 = map (\<lambda>i. (60000, FbResume i)) [R ..< Suc k]"
      unfolding ex using Suc.prems(2,3,4,6) rpm
      by (auto simp: fb_limit_def fb_invoke_def Let_def windowDuration_def min_def)
    show "fb_unhandled ?s1 = 0"
      unfolding ex using Suc.prems(7) by (simp add: fb_limit_def fb_invoke_def Let_def)
    show "Suc k + m \<le> N" using Suc.prems(8) by simp
  qed
  then show ?case unfolding l by simp
qed

text \<open>The end of the bucket: every task that waited resets the counter and starts.\<close>

lemma fb_resume_burst:
  assumes args: "fnArgs e = replicate N (JArr [])"
    and "fb_now s = 60000" "fb_unhandled s = 0"
    and "fb_timers s = map (\<lambda>i. (60000, FbResume i)) [j ..< N] @ rest"
    and "j \<le> N"
  shows "\<exists>s'. fb_exec e (replicate (N - j) (Fire 0)) s = Some s' \<and>
           fb_started s' = fb_started s @ map (\<lambda>i. (60000, i)) [j ..< N]"
  using assms(2-)
proof (induction "N - j" arbitrary: j s)
  case 0
  then show ?case by simp
next
  case (Suc d)
  have jN: "j < N" and d: "d = N - Suc j" using Suc.hyps(2) by simp_all
  have t: "fb_timers s = (60000, FbResume j) # map (\<lambda>i. (60000, FbResume i)) [Suc j ..< N] @ rest"
    using Suc.prems(3) jN by (simp add: upt_conv_Cons)
  let ?s1 = "fb_invoke j [] (s\<lparr>fb_timers := map (\<lambda>i. (60000, FbResume i)) [Suc j ..< N] @ rest,
                                windowStartTime := 60000, requestsInWindow := 0\<rparr>)"
  have st: "fb_step e (Fire 0) s = Some ?s1"
    using t Suc.prems(1,2) jN args by (simp add: fb_step_def fb_fire_def fb_resume_def)
  obtain s' where s': "fb_exec e (replicate (N - Suc j) (Fire 0)) ?s1 = Some s'"
    "fb_started s' = fb_started ?s1 @ map (\<lambda>i. (60000, i)) [Suc j ..< N]"
    using Suc.hyps(1)[OF d, of ?s1] Suc.prems(1,2) jN by (auto simp: fb_invoke_def)
  have "replicate (N - j) (Fire 0) = Fire 0 # replicate (N - Suc j) (Fire 0)"
    using jN by (simp add: Suc_diff_Suc flip: replicate_Suc)
  then have "fb_exec e (replicate (N - j) (Fire 0)) s = Some s'" using st s'(1) by simp
  moreover have "fb_started s' = fb_started s @ map (\<lambda>i. (60000, i)) [j ..< N]"
    using s'(2) Suc.prems(1) jN by (simp add: fb_invoke_def upt_conv_Cons)
  ultimately show ?case by blast
qed

lemma fb_poll_fields:
  "fb_now (fb_poll s) = fb_now s" "fb_unhandled (fb_poll s) = fb_unhandled s"
  "fb_started (fb_poll s) = fb_started s" "\<exists>rest. fb_timers (fb_poll s) = fb_timers s @ rest"
  by (simp_all add: fb_poll_def)

lemma fb_burst:
  assumes "0 < r"
  shows "\<exists>s. fb_exec (burst_env r n) (burst_schedule n) (fb_rpmControlledBatch (burst_env r n) 0) = Some s \<and>
           fb_started s = map (\<lambda>i. (0, i)) [0 ..< nat r] @ map (\<lambda>i. (60000, i)) [nat r ..< nat r + n]"
proof -
  let ?e = "burst_env r n"
  let ?N = "nat r + n"
  let ?l = "fb_launch ?e ?N (fb_initial ?e 0)"
  have args: "fnArgs ?e = replicate ?N (JArr [])" and rpm: "rpm ?e = int (nat r)"
    and mc: "maxConcurrent ?e = int ?N"
    using burst_env_fields[OF assms, of n] assms by simp_all
  have "nat (r + int n) = ?N" using assms by (simp add: nat_add_distrib)
  then have batch: "fb_rpmControlledBatch ?e 0 = fb_poll ?l"
    using assms by (simp add: fb_rpmControlledBatch_def mc args)
  have l: "fb_now ?l = 0 \<and> fb_unhandled ?l = 0 \<and>
         fb_started ?l = map (\<lambda>i. (0, i)) [0 ..< min (0 + ?N) (nat r)] \<and>
         fb_timers ?l = map (\<lambda>i. (60000, FbResume i)) [nat r ..< 0 + ?N]"
    by (rule fb_launch_burst[OF args rpm]) (simp_all add: fb_initial_def args)
  let ?s0 = "(fb_poll ?l)\<lparr>fb_now := 60000\<rparr>"
  obtain rest where rest: "fb_timers (fb_poll ?l) = fb_timers ?l @ rest"
    using fb_poll_fields(4) by blast
  have adv: "fb_step ?e (Advance 60000) (fb_poll ?l) = Some ?s0"
    using l by (simp add: fb_step_def fb_poll_fields)
  have "\<exists>s'. fb_exec ?e (replicate (?N - nat r) (Fire 0)) ?s0 = Some s' \<and>
           fb_started s' = fb_started ?s0 @ map (\<lambda>i. (60000, i)) [nat r ..< ?N]"
  proof (rule fb_resume_burst[OF args])
    show "fb_now ?s0 = 60000" by simp
    show "fb_unhandled ?s0 = 0" using l by (simp add: fb_poll_fields)
    show "fb_timers ?s0 = map (\<lambda>i. (60000, FbResume i)) [nat r ..< ?N] @ rest"
      using l rest by simp
    show "nat r \<le> ?N" by simp
  qed
  then obtain s' where s': "fb_exec ?e (replicate n (Fire 0)) ?s0 = Some s'"
    "fb_started s' = fb_started ?s0 @ map (\<lambda>i. (60000, i)) [nat r ..< ?N]"
    by auto
  have "fb_exec ?e (burst_schedule n) (fb_rpmControlledBatch ?e 0) = Some s'"
    unfolding batch burst_schedule_def using adv s'(1) by simp
  moreover have "fb_started ?s0 = map (\<lambda>i. (0, i)) [0 ..< nat r]"
    using l by (simp add: fb_poll_fields)
  ultimately show ?thesis using s'(2) by auto
qed

lemma fb_burst_count:
  assumes "0 < r"
  shows "\<exists>s. fb_exec (burst_env r n) (burst_schedule n) (fb_rpmControlledBatch (burst_env r n) 0) = Some s \<and>
           fb_starts_in 60000 s = n"
proof -
  obtain s where s: "fb_exec (burst_env r n) (burst_schedule n) (fb_rpmControlledBatch (burst_env r n) 0) = Some s"
    "fb_started s = map (\<lambda>i. (0, i)) [0 ..< nat r] @ map (\<lambda>i. (60000, i)) [nat r ..< nat r + n]"
    using fb_burst[OF assms] by blast
  have "fb_starts_in 60000 s = n"
    by (simp add: fb_starts_in_def s(2) windowDuration_def filter_map comp_def)
  then show ?thesis using s(1) by blast
qed

lemma numeral_4_eq_4: "(4::nat) = Suc (Suc (Suc (Suc 0)))"
  by simp

lemmas run_defs =
  step_def mk_env_def or_default_def rpmControlledBatch_def initial_def processQueue_closed admit_def
  admit_count_def pruned_def prune_def slot_wait_def poll_def setTimeout_def fire_def
  executeTask_def run_task_closed settle_def completeTask_def resume_acquire_def
  windowDuration_def on_error_def block_requests_def failure_def

lemmas parse_defs =
  parse_retry_def parseInt_def parse_unsigned_def parse_digits_def digits_value_def
  is_digit_def digit_val_def is_space_def throttle_error_def

section \<open>The rate bound\<close>

text \<open>
  C2. In every execution of the sliding-window \<open>rpmControlledBatch\<close>, every trailing
  interval of 60,000 ms, \<open>(T - 60000, T]\<close>, contains at most \<open>rpm\<close> starts, a start
  being the recording of a rate-limit slot immediately before \<open>asyncFn\<close> is called.
  The configuration is the one of the data model, \<open>rpm > 0\<close>.
\<close>

theorem rate_bound:
  assumes "exec e evs (rpmControlledBatch e t0) = Some s" and "0 < rpm e"
  shows "int (starts_in T s) \<le> rpm e"
proof -
  have "rate_inv e s" using assms(1) by (rule rate_reachable)
  then have "int (length (filter (\<lambda>x. T - windowDuration < x \<and> x \<le> T) (map fst (started s))))
               \<le> max 1 (rpm e)"
    unfolding rate_inv_def rate_ok_def by blast
  moreover have "length (filter (\<lambda>x. T - windowDuration < x \<and> x \<le> T) (map fst (started s)))
                   = starts_in T s"
    by (simp add: starts_in_def filter_map comp_def)
  ultimately show ?thesis using assms(2) by simp
qed

theorem rate_bound_witness:
  "\<exists>s. exec e2 evs2 (rpmControlledBatch e2 0) = Some s \<and> 0 < rpm e2 \<and>
       map fst (started s) = [0, 0, 60100] \<and> int (starts_in 60100 s) \<le> rpm e2"
proof -
  have "exec e2 evs2 (rpmControlledBatch e2 0) \<noteq> None"
    by (simp add: e2_def evs2_def run_defs)
  then obtain s where ex: "exec e2 evs2 (rpmControlledBatch e2 0) = Some s" by auto
  have r: "0 < rpm e2" by (simp add: e2_def mk_env_def or_default_def)
  have "map_option (\<lambda>s. map fst (started s)) (exec e2 evs2 (rpmControlledBatch e2 0))
          = Some [0, 0, 60100]"
    by (simp add: e2_def evs2_def run_defs)
  then have "map fst (started s) = [0, 0, 60100]" using ex by simp
  then show ?thesis using rate_bound[OF ex r, of 60100] ex r by (intro exI[of _ s]) simp
qed

section \<open>The wait computed by getTimeUntilNextSlot\<close>

lemma sorted_hd_Min:
  assumes "sorted (x # xs)"
  shows "Min (set (x # xs)) = x"
  using assms by (intro Min_eqI) auto

text \<open>
  C7. In every state the window can be in (every state an execution reaches) and for
  every current time \<open>t\<close>, \<open>getTimeUntilNextSlot\<close> does what
  \<open>timeUntilNextSlot_spec\<close> says: it removes the timestamps that are 60 s old or
  older, returns 0 when fewer than \<open>rpm\<close> remain, and otherwise returns
  \<open>(oldest remaining + 60000) - t + 100\<close>, clamped at 0. The code reads the oldest
  timestamp as element 0 of the array; that is the minimum because the window is sorted
  in every reachable state. \<open>rpm > 0\<close> as in the data model.
\<close>

theorem getTimeUntilNextSlot_meets_spec:
  assumes "exec e evs (rpmControlledBatch e t0) = Some s" and "0 < rpm e"
  shows "getTimeUntilNextSlot e (s\<lparr>now := t\<rparr>) =
           (Num (snd (timeUntilNextSlot_spec (rpm e) t (requestTimestamps s))),
            s\<lparr>now := t,
              requestTimestamps := fst (timeUntilNextSlot_spec (rpm e) t (requestTimestamps s))\<rparr>)"
proof -
  let ?kept = "prune t (requestTimestamps s)"
  have srt: "sorted ?kept" using sorted_reachable[OF assms(1)] by (rule sorted_prune)
  have kept: "filter (\<lambda>ts. \<not> (60000 \<le> t - ts)) (requestTimestamps s) = ?kept"
    by (simp add: prune_def windowDuration_def not_le)
  have wait: "slot_wait (rpm e) t (requestTimestamps s)
                = Num (snd (timeUntilNextSlot_spec (rpm e) t (requestTimestamps s)))"
  proof (cases "int (length ?kept) < rpm e")
    case True
    then show ?thesis by (simp add: slot_wait_def timeUntilNextSlot_spec_def Let_def kept)
  next
    case False
    then obtain x xs where c: "?kept = x # xs" using assms(2) by (cases ?kept) auto
    have "Min (set ?kept) = x" using srt unfolding c by (rule sorted_hd_Min)
    then show ?thesis using False c
      by (simp add: slot_wait_def timeUntilNextSlot_spec_def Let_def kept windowDuration_def)
  qed
  have "fst (timeUntilNextSlot_spec (rpm e) t (requestTimestamps s)) = ?kept"
    by (simp add: timeUntilNextSlot_spec_def Let_def kept)
  then show ?thesis
    by (simp add: getTimeUntilNextSlot_def wait)
qed

theorem getTimeUntilNextSlot_meets_spec_witness:
  "\<exists>s. exec e2 evs7 (rpmControlledBatch e2 0) = Some s \<and> 0 < rpm e2 \<and>
       requestTimestamps s = [0, 0] \<and>
       fst (getTimeUntilNextSlot e2 (s\<lparr>now := 30000\<rparr>)) = Num 30100 \<and>
       fst (getTimeUntilNextSlot e2 (s\<lparr>now := 60000\<rparr>)) = Num 0"
proof -
  have "exec e2 evs7 (rpmControlledBatch e2 0) \<noteq> None"
    by (simp add: e2_def evs7_def run_defs)
  then obtain s where ex: "exec e2 evs7 (rpmControlledBatch e2 0) = Some s" by auto
  have r: "0 < rpm e2" and r2: "rpm e2 = 2" by (simp_all add: e2_def mk_env_def or_default_def)
  have "map_option requestTimestamps (exec e2 evs7 (rpmControlledBatch e2 0)) = Some [0, 0]"
    by (simp add: e2_def evs7_def run_defs)
  then have ts: "requestTimestamps s = [0, 0]" using ex by simp
  have "fst (getTimeUntilNextSlot e2 (s\<lparr>now := 30000\<rparr>)) = Num 30100"
    by (simp add: getTimeUntilNextSlot_meets_spec[OF ex r] ts r2 timeUntilNextSlot_spec_def Let_def)
  moreover have "fst (getTimeUntilNextSlot e2 (s\<lparr>now := 60000\<rparr>)) = Num 0"
    by (simp add: getTimeUntilNextSlot_meets_spec[OF ex r] ts r2 timeUntilNextSlot_spec_def Let_def)
  ultimately show ?thesis using ex r ts by (intro exI[of _ s]) simp
qed

section \<open>The size of the window\<close>

text \<open>
  C6, as the code has it. The claim that the number of active timestamps never exceeds
  \<open>rpm\<close> fails: the \<open>catch\<close> block pushes \<open>rpm\<close> blocking timestamps on top of
  the real ones. With \<open>rpm = 1\<close>, a call that starts at 0 and is rejected at 10 with a
  429 advising 5 s leaves the window \<open>[-54990, 0]\<close>, both entries active.
\<close>

theorem window_exceeds_rpm:
  "map_option active_timestamps (exec e6 evs6 (rpmControlledBatch e6 0)) = Some 2 \<and> rpm e6 = 1"
  by (simp add: e6_def evs6_def run_defs parse_defs active_timestamps_def)

text \<open>
  C6, amended. In every reachable state the number of active timestamps is at most
  \<open>rpm\<close> times one more than the number of cooldowns injected so far; in particular
  it is at most \<open>rpm\<close> as long as no cooldown has been injected.
\<close>

theorem window_bound:
  assumes "exec e evs (rpmControlledBatch e t0) = Some s" and "0 < rpm e"
  shows "int (active_timestamps s) \<le> rpm e * (1 + int (length (cooldowns s))) \<and>
         (cooldowns s = [] \<longrightarrow> int (active_timestamps s) \<le> rpm e)"
  using window_bound_reachable[OF assms] by (auto simp: active_timestamps_def)

theorem window_bound_witness:
  "\<exists>s. exec e6 evs6 (rpmControlledBatch e6 0) = Some s \<and> 0 < rpm e6 \<and>
       cooldowns s = [(10, 5000)] \<and>
       int (active_timestamps s) \<le> rpm e6 * (1 + int (length (cooldowns s)))"
proof -
  have "exec e6 evs6 (rpmControlledBatch e6 0) \<noteq> None"
    by (simp add: e6_def evs6_def run_defs parse_defs)
  then obtain s where ex: "exec e6 evs6 (rpmControlledBatch e6 0) = Some s" by auto
  have r: "0 < rpm e6" by (simp add: e6_def mk_env_def or_default_def)
  have "map_option cooldowns (exec e6 evs6 (rpmControlledBatch e6 0)) = Some [(10, 5000)]"
    by (simp add: e6_def evs6_def run_defs parse_defs)
  then have "cooldowns s = [(10, 5000)]" using ex by simp
  then show ?thesis using window_bound[OF ex r] ex r by (intro exI[of _ s]) simp
qed

section \<open>The results array\<close>

text \<open>
  C1. Whenever the call returns (in any execution, whatever the order in which the tasks
  settle), the returned array has the length of \<open>fnArgs\<close>, and its entry \<open>i\<close> is
  the outcome produced for \<open>fnArgs[i]\<close>: for an array \<open>fnArgs[i]\<close>, \<open>asyncFn\<close> was
  invoked for task \<open>i\<close> with exactly its elements and the entry is what was stored for
  the way that invocation settled; for a non-array, the entry is the argument error.
  For an empty \<open>fnArgs\<close> the call returns the empty array in its synchronous part.
\<close>

theorem results_index_aligned:
  "(\<forall>evs s rs. exec e evs (rpmControlledBatch e t0) = Some s \<and> returned s = Some rs \<longrightarrow>
       length rs = length (fnArgs e) \<and>
       (\<forall>i < length (fnArgs e). \<exists>r. rs ! i = Some r \<and> expected e (settled s) i r)) \<and>
   (fnArgs e = [] \<longrightarrow> returned (rpmControlledBatch e t0) = Some [])"
proof -
  have 1: "length rs = length (fnArgs e) \<and>
       (\<forall>i < length (fnArgs e). \<exists>r. rs ! i = Some r \<and> expected e (settled s) i r)"
    if a: "exec e evs (rpmControlledBatch e t0) = Some s \<and> returned s = Some rs" for evs s rs
  proof -
    have "good e s" using a good_reachable by blast
    then show ?thesis using a by (intro returned_full) simp_all
  qed
  have 2: "returned (rpmControlledBatch e t0) = Some []" if "fnArgs e = []"
    using that by (simp add: rpmControlledBatch_def initial_def processQueue_def
          processQueue_loop.simps[of e] poll_def)
  show ?thesis using 1 2 by blast
qed

theorem results_index_aligned_witness:
  "\<exists>s rs. exec e1 evs1 (rpmControlledBatch e1 0) = Some s \<and> returned s = Some rs \<and>
      length rs = 3 \<and> rs ! 0 = Some (JStr ''A'') \<and> rs ! 1 = Some (failure args_error) \<and>
      rs ! 2 = Some (failure (JStr ''boom'')) \<and>
      (\<forall>i < length (fnArgs e1). \<exists>r. rs ! i = Some r \<and> expected e1 (settled s) i r)"
proof -
  have "exec e1 evs1 (rpmControlledBatch e1 0) \<noteq> None"
    by (simp add: e1_def evs1_def run_defs)
  then obtain s where ex: "exec e1 evs1 (rpmControlledBatch e1 0) = Some s" by auto
  have "map_option returned (exec e1 evs1 (rpmControlledBatch e1 0))
          = Some (Some [Some (JStr ''A''), Some (failure args_error), Some (failure (JStr ''boom''))])"
    by (simp add: e1_def evs1_def run_defs)
  then have ret: "returned s
          = Some [Some (JStr ''A''), Some (failure args_error), Some (failure (JStr ''boom''))]"
    using ex by simp
  have "\<forall>i < length (fnArgs e1). \<exists>r.
          [Some (JStr ''A''), Some (failure args_error), Some (failure (JStr ''boom''))] ! i = Some r
          \<and> expected e1 (settled s) i r"
    using results_index_aligned[of e1 0] ex ret by blast
  then show ?thesis using ex ret
    by (intro exI[of _ s]
          exI[of _ "[Some (JStr ''A''), Some (failure args_error), Some (failure (JStr ''boom''))]"])
       simp
qed

section \<open>The active-task counter\<close>

text \<open>
  C3. In every state an execution reaches, \<open>0 \<le> activeTaskCount \<le> maxConcurrent\<close>
  (for \<open>maxConcurrent > 0\<close>, as in the data model). Every step that takes tasks from
  the queue starts with \<open>activeTaskCount < maxConcurrent\<close> and adds to the counter the
  number of tasks it admits, ending at \<open>maxConcurrent\<close> at most; every settlement of an
  invocation subtracts exactly one and removes the invocation from the pending ones, and
  no task settles twice.
\<close>

theorem active_count_bounds:
  assumes "exec e evs (rpmControlledBatch e t0) = Some s" and "0 < maxConcurrent e"
  shows "0 \<le> activeTaskCount s \<and> activeTaskCount s \<le> maxConcurrent e \<and>
         distinct (map fst (settled s)) \<and>
         (\<forall>ev s'. step e ev s = Some s' \<longrightarrow>
            (taskQueue s' \<noteq> taskQueue s \<longrightarrow>
               activeTaskCount s < maxConcurrent e \<and>
               activeTaskCount s' =
                 activeTaskCount s + int (length (taskQueue s) - length (taskQueue s'))) \<and>
            (\<forall>i out. ev = Settle i out \<longrightarrow>
               activeTaskCount s' = activeTaskCount s - 1 \<and>
               i \<in> fst ` set (calling s) \<and> i \<notin> fst ` set (calling s')))"
proof -
  have g: "good e s" using assms(1) by (rule good_reachable)
  then have si: "struct_inv e s" by (simp add: good_def)
  have 1: "0 \<le> activeTaskCount s" by (rule struct_inv_core(2)[OF si])
  have 2: "activeTaskCount s \<le> maxConcurrent e" using cap_reachable[OF assms(1)] assms(2) by simp
  have 3: "distinct (map fst (settled s))" using g by (simp add: good_def res_ok_def)
  have 4: "activeTaskCount s < maxConcurrent e \<and>
           activeTaskCount s' = activeTaskCount s + int (length (taskQueue s) - length (taskQueue s'))"
    if "step e ev s = Some s'" "taskQueue s' \<noteq> taskQueue s" for ev s'
    using turn_active[OF struct_inv_np[OF si] step_turn(2)[OF that(1)]] that(2) by auto
  have 5: "activeTaskCount s' = activeTaskCount s - 1 \<and>
           i \<in> fst ` set (calling s) \<and> i \<notin> fst ` set (calling s')"
    if "step e (Settle i out) s = Some s'" for i out s'
  proof -
    have s: "settle e i out s = Some s'" using step_turn(2)[OF that] by simp
    obtain args where "map_of (calling s) i = Some args"
      using settle_fields(2)[OF s] by blast
    then have "(i, args) \<in> set (calling s)" by (rule map_of_SomeD)
    then have "i \<in> fst ` set (calling s)" by force
    then show ?thesis using settle_fields(4,6)[OF s] by auto
  qed
  show ?thesis using 1 2 3 4 5 by blast
qed

theorem active_count_bounds_witness:
  "\<exists>s s'. exec e1 evs3 (rpmControlledBatch e1 0) = Some s \<and> 0 < maxConcurrent e1 \<and>
      activeTaskCount s = 1 \<and> activeTaskCount s \<le> maxConcurrent e1 \<and>
      step e1 (Settle 0 (Resolved JNull)) s = Some s' \<and>
      activeTaskCount s' = activeTaskCount s - 1"
proof -
  have "exec e1 (evs3 @ [Settle 0 (Resolved JNull)]) (rpmControlledBatch e1 0) \<noteq> None"
    by (simp add: e1_def evs3_def run_defs)
  then obtain s s' where ex: "exec e1 evs3 (rpmControlledBatch e1 0) = Some s"
    and st: "step e1 (Settle 0 (Resolved JNull)) s = Some s'"
    by (auto simp: exec_append split: option.splits)
  have m: "0 < maxConcurrent e1" by (simp add: e1_def mk_env_def or_default_def)
  have "map_option activeTaskCount (exec e1 evs3 (rpmControlledBatch e1 0)) = Some 1"
    by (simp add: e1_def evs3_def run_defs)
  then have a: "activeTaskCount s = 1" using ex by simp
  have "activeTaskCount s \<le> maxConcurrent e1 \<and> activeTaskCount s' = activeTaskCount s - 1"
    using active_count_bounds[OF ex m] st by blast
  then show ?thesis using ex m a st by (intro exI[of _ s] exI[of _ s']) simp
qed

section \<open>How outcomes are stored\<close>

text \<open>
  C10. In every reachable state in which task \<open>i\<close> has a pending invocation: if the
  invocation is rejected with \<open>err\<close>, \<open>results[i]\<close> becomes the object
  \<open>{error: err}\<close>; if it resolves with \<open>v\<close>, \<open>results[i]\<close> becomes \<open>v\<close> itself.
  So a task that resolves with \<open>{error: err}\<close> leaves the same results array as a task
  rejected with \<open>err\<close>, and for every resolved value that has an \<open>error\<close> property
  the test \<open>result.error\<close> reads what it reads for a failure with that error.
\<close>

theorem outcome_encoding:
  assumes "exec e evs (rpmControlledBatch e t0) = Some s"
    and "map_of (calling s) i = Some args"
  shows "\<exists>s1 s2 s3.
           settle e i (Rejected err) s = Some s1 \<and> results s1 ! i = Some (JObj [(''error'', err)]) \<and>
           settle e i (Resolved v) s = Some s2 \<and> results s2 ! i = Some v \<and>
           settle e i (Resolved (JObj [(''error'', err)])) s = Some s3 \<and> results s3 = results s1 \<and>
           (get_prop ''error'' v = Some err \<longrightarrow>
              get_prop ''error'' (the (results s2 ! i)) = get_prop ''error'' (the (results s1 ! i)))"
proof -
  have si: "struct_inv e s" using good_reachable[OF assms(1)] by (simp add: good_def)
  then obtain H where st: "struct_gen e H s" by (auto simp: struct_inv_def)
  have "i < length (fnArgs e)"
    using struct_pending_results(1)[OF st calling_pending(1)[OF assms(2)]] .
  then have i: "i < length (results s)" using struct_inv_core(1)[OF si] by simp
  obtain s1 where s1: "settle e i (Rejected err) s = Some s1"
    using assms(2) by (simp add: settle_def Let_def)
  obtain s2 where s2: "settle e i (Resolved v) s = Some s2"
    using assms(2) by (simp add: settle_def Let_def)
  obtain s3 where s3: "settle e i (Resolved (JObj [(''error'', err)])) s = Some s3"
    using assms(2) by (simp add: settle_def Let_def)
  have r1: "results s1 = (results s)[i := Some (JObj [(''error'', err)])]"
    using settle_fields(1)[OF s1] by (simp add: failure_def)
  have r2: "results s2 = (results s)[i := Some v]"
    using settle_fields(1)[OF s2] by simp
  have r3: "results s3 = (results s)[i := Some (JObj [(''error'', err)])]"
    using settle_fields(1)[OF s3] by simp
  show ?thesis using s1 s2 s3 r1 r2 r3 i by simp
qed

theorem outcome_encoding_witness:
  "\<exists>s s1 s3. exec e1 evs3 (rpmControlledBatch e1 0) = Some s \<and>
      map_of (calling s) 0 = Some [JStr ''a''] \<and>
      settle e1 0 (Rejected (JStr ''x'')) s = Some s1 \<and>
      settle e1 0 (Resolved (JObj [(''error'', JStr ''x'')])) s = Some s3 \<and>
      results s3 = results s1 \<and> results s1 ! 0 = Some (JObj [(''error'', JStr ''x'')])"
proof -
  have "exec e1 evs3 (rpmControlledBatch e1 0) \<noteq> None"
    by (simp add: e1_def evs3_def run_defs)
  then obtain s where ex: "exec e1 evs3 (rpmControlledBatch e1 0) = Some s" by auto
  have "map_option calling (exec e1 evs3 (rpmControlledBatch e1 0)) = Some [(0, [JStr ''a''])]"
    by (simp add: e1_def evs3_def run_defs)
  then have m: "map_of (calling s) 0 = Some [JStr ''a'']" using ex by simp
  from outcome_encoding[OF ex m, where err = "JStr ''x''" and v = JNull]
  obtain s1 s3 where "settle e1 0 (Rejected (JStr ''x'')) s = Some s1"
    "results s1 ! 0 = Some (JObj [(''error'', JStr ''x'')])"
    "settle e1 0 (Resolved (JObj [(''error'', JStr ''x'')])) s = Some s3"
    "results s3 = results s1"
    by blast
  then show ?thesis using ex m by (intro exI[of _ s] exI[of _ s1] exI[of _ s3]) simp
qed

section \<open>Malformed configuration\<close>

text \<open>
  C8, as the code has it. The claim that a non-positive \<open>rpm\<close> makes the call fail
  before any dispatch is false: nothing in \<open>rpmControlledBatch\<close> validates the
  options. With \<open>rpm = -3\<close> and \<open>maxConcurrent = 1\<close> the task is dispatched (the
  wait computed on the empty window is NaN, and \<open>NaN > 0\<close> is false), \<open>asyncFn\<close> is
  invoked at instant 0, and the call returns the task's result.
\<close>

theorem negative_rpm_dispatches:
  "rpm e8 = - 3 \<and>
   map_option started (exec e8 evs8 (rpmControlledBatch e8 0)) = Some [(0, 0)] \<and>
   map_option returned (exec e8 evs8 (rpmControlledBatch e8 0)) = Some (Some [Some (JStr ''ok'')])"
  by (simp add: e8_def evs8_def run_defs)

text \<open>
  C8, amended. \<open>rpmControlledBatch\<close> validates neither \<open>rpm\<close> nor \<open>maxConcurrent\<close>.
  The call fails before anything is dispatched for one configuration only, an options
  argument that is \<open>null\<close> (reading \<open>options.rpm\<close> throws). With the options absent
  or an object it does not fail: a missing, zero or NaN \<open>rpm\<close> becomes 10, a missing,
  zero or NaN \<open>maxConcurrent\<close> becomes \<open>rpm\<close>, every other number, negative ones
  too, is used as given, and whatever the numbers are the synchronous part of the call
  admits as many tasks as \<open>maxConcurrent\<close> allows:
  \<open>min(fnArgs.length, max(maxConcurrent, 0))\<close>.
\<close>

theorem no_config_validation:
  "rpmControlledBatch_call args OptionsNull t0 = None \<and>
   rpmControlledBatch_call args OptionsAbsent t0 =
     Some (rpmControlledBatch (mk_env args \<lparr>opt_rpm = None, opt_maxConcurrent = None\<rparr>) t0) \<and>
   rpmControlledBatch_call args (OptionsObject opts) t0 =
     Some (rpmControlledBatch (mk_env args opts) t0) \<and>
   fnArgs (mk_env args opts) = args \<and>
   rpm (mk_env args opts) = or_default (opt_rpm opts) 10 \<and>
   maxConcurrent (mk_env args opts) = or_default (opt_maxConcurrent opts) (rpm (mk_env args opts)) \<and>
   or_default None d = d \<and> or_default (Some NaN) d = d \<and> or_default (Some (Num 0)) d = d \<and>
   (n \<noteq> 0 \<longrightarrow> or_default (Some (Num n)) d = n) \<and>
   activeTaskCount (rpmControlledBatch (mk_env args opts) t0)
     = int (min (length args) (nat (maxConcurrent (mk_env args opts)))) \<and>
   taskQueue (rpmControlledBatch (mk_env args opts) t0)
     = drop (nat (maxConcurrent (mk_env args opts))) [0 ..< length args]"
proof -
  let ?e = "mk_env args opts"
  have np: "\<not> processingQueue (initial ?e t0)" by (simp add: initial_def)
  have args: "fnArgs ?e = args" by (simp add: mk_env_def Let_def)
  have pq: "processQueue ?e (initial ?e t0) =
          (if 0 < maxConcurrent ?e \<and> args \<noteq> []
           then admit (admit_count ?e (initial ?e t0)) (pruned (initial ?e t0))
           else initial ?e t0)"
    by (subst processQueue_closed[OF np]) (simp add: initial_def slot_wait_empty args)
  have a: "activeTaskCount (processQueue ?e (initial ?e t0))
             = int (min (length args) (nat (maxConcurrent ?e)))"
    unfolding pq by (auto simp: args initial_def admit_def admit_count_def pruned_def min_def)
  have q: "taskQueue (processQueue ?e (initial ?e t0)) = drop (nat (maxConcurrent ?e)) [0 ..< length args]"
    unfolding pq by (auto simp: args initial_def admit_def admit_count_def pruned_def min_def)
  have c: "rpmControlledBatch_call args OptionsNull t0 = None"
    "rpmControlledBatch_call args OptionsAbsent t0 =
       Some (rpmControlledBatch (mk_env args \<lparr>opt_rpm = None, opt_maxConcurrent = None\<rparr>) t0)"
    "rpmControlledBatch_call args (OptionsObject opts) t0 = Some (rpmControlledBatch ?e t0)"
    by (simp_all add: rpmControlledBatch_call_def read_options_def)
  have d: "rpm ?e = or_default (opt_rpm opts) 10"
    "maxConcurrent ?e = or_default (opt_maxConcurrent opts) (rpm ?e)"
    by (simp_all add: mk_env_def Let_def)
  have o: "or_default None d = d" "or_default (Some NaN) d = d" "or_default (Some (Num 0)) d = d"
    "n \<noteq> 0 \<longrightarrow> or_default (Some (Num n)) d = n"
    by (simp_all add: or_default_def)
  have a': "activeTaskCount (rpmControlledBatch ?e t0) = int (min (length args) (nat (maxConcurrent ?e)))"
    using a by (simp add: rpmControlledBatch_def)
  have q': "taskQueue (rpmControlledBatch ?e t0) = drop (nat (maxConcurrent ?e)) [0 ..< length args]"
    using q by (simp add: rpmControlledBatch_def)
  show ?thesis using c d o a' q' args by simp
qed

theorem no_config_validation_witness:
  "or_default (Some (Num (- 3))) 10 = - 3 \<and> rpm e8 = - 3 \<and>
   rpmControlledBatch_call [JArr []]
     (OptionsObject \<lparr>opt_rpm = Some (Num (- 3)), opt_maxConcurrent = Some (Num 1)\<rparr>) 0
     = Some (rpmControlledBatch e8 0) \<and>
   activeTaskCount (rpmControlledBatch e8 0) = 1 \<and> taskQueue (rpmControlledBatch e8 0) = [] \<and>
   rpmControlledBatch_call [JArr []] OptionsNull 0 = None"
  using no_config_validation[of "[JArr []]" 0
          "\<lparr>opt_rpm = Some (Num (- 3)), opt_maxConcurrent = Some (Num 1)\<rparr>" 10 "- 3"]
  by (simp add: e8_def or_default_def)

section \<open>Throttle errors without a usable retry delay\<close>

text \<open>
  C5. The code applies the default cooldown of 30 s only when reading the retry advice
  throws. A 429 error whose details hold no \<open>RetryInfo\<close> entry, or whose
  \<open>retryDelay\<close> is not a number of seconds (\<open>'soon'\<close>), or is below one second
  (\<open>'0.5s'\<close>, which \<open>parseInt\<close> reads as 0), gets no cooldown at all: with \<open>rpm = 2\<close>
  and \<open>maxConcurrent = 1\<close>, the first call starts at 0 and is rejected at 10, and the
  second call starts at 60. With \<open>'5s'\<close> the cooldown is applied: at 60 the second task
  stays in the queue and \<open>processQueue\<close> is rescheduled for 5110. (What the code does
  with a delay it has parsed is \<open>throttle_cooldown\<close> and \<open>cooldown_respected\<close>
  above: no call starts strictly between the injection and the end of the cooldown.)
\<close>

theorem no_default_cooldown:
  "map_option started (exec e5 (evs5 quota_error @ [Fire 1]) (rpmControlledBatch e5 0))
     = Some [(0, 0), (60, 1)] \<and>
   map_option cooldowns (exec e5 (evs5 quota_error @ [Fire 1]) (rpmControlledBatch e5 0)) = Some [] \<and>
   map_option started (exec e5 (evs5 (throttle_error ''soon'') @ [Fire 1]) (rpmControlledBatch e5 0))
     = Some [(0, 0), (60, 1)] \<and>
   map_option started (exec e5 (evs5 (throttle_error ''0.5s'') @ [Fire 1]) (rpmControlledBatch e5 0))
     = Some [(0, 0), (60, 1)] \<and>
   map_option timers (exec e5 (evs5 (throttle_error ''5s'')) (rpmControlledBatch e5 0))
     = Some [(100, CbPoll), (5110, CbProcessQueue)] \<and>
   map_option taskQueue (exec e5 (evs5 (throttle_error ''5s'')) (rpmControlledBatch e5 0)) = Some [1]"
  by (simp add: e5_def evs5_def quota_error_def run_defs parse_defs numeral_2_eq_2 Let_def)

section \<open>Fixed bucket against sliding window\<close>

lemmas fb_defs =
  fb_step_def fb_rpmControlledBatch_def fb_initial_def fb_poll_def fb_fire_def fb_resume_def
  fb_limit_def fb_invoke_def fb_settle_def fb_executeTask_array fb_starts_in_def

text \<open>
  C9, as the code has it. The fixed-bucket variant does not stop at \<open>2 \<times> rpm\<close> starts
  in one trailing interval of 60,000 ms, and the excess does not come from a burst on
  either side of a bucket boundary. A task that finds the bucket full waits for its end
  and then resets the counter itself, whatever the other waiting tasks have done. With
  \<open>rpm = 1\<close> and four tasks admitted at once, the first starts at 0 and the other three
  all start at 60000: three starts in \<open>(0, 60000]\<close>.
\<close>

theorem fixed_bucket_exceeds_twice_rpm:
  "rpm e9 = 1 \<and>
   map_option fb_started (fb_exec e9 evs9 (fb_rpmControlledBatch e9 0))
     = Some [(0, 0), (60000, 1), (60000, 2), (60000, 3)] \<and>
   map_option (fb_starts_in 60000) (fb_exec e9 evs9 (fb_rpmControlledBatch e9 0)) = Some 3"
proof -
  have r: "rpm e9 = 1" by (simp add: e9_def mk_env_def or_default_def)
  have b: "fb_rpmControlledBatch e9 0 =
     \<lparr>fb_now = 0, requestsInWindow = 1, windowStartTime = 0, fb_taskQueue = [],
       fb_results = [None, None, None, None], executing = {3, 2, 1, 0},
       fb_timers = [(60000, FbResume 1), (60000, FbResume 2), (60000, FbResume 3), (100, FbPoll)],
       fb_calling = [(0, [])], fb_returned = None, fb_started = [(0, 0)], fb_unhandled = 0\<rparr>"
    by (simp add: e9_def mk_env_def or_default_def fb_defs windowDuration_def
          numeral_4_eq_4 numeral_3_eq_3 numeral_2_eq_2 Let_def)
  have s: "map_option fb_started (fb_exec e9 evs9 (fb_rpmControlledBatch e9 0))
     = Some [(0, 0), (60000, 1), (60000, 2), (60000, 3)]"
    unfolding b by (simp add: e9_def evs9_def mk_env_def or_default_def fb_defs Let_def)
  have c: "map_option (fb_starts_in 60000) (fb_exec e9 evs9 (fb_rpmControlledBatch e9 0)) = Some 3"
    unfolding b by (simp add: e9_def evs9_def mk_env_def or_default_def fb_defs windowDuration_def Let_def)
  show ?thesis using r s c by simp
qed

text \<open>
  C9, amended. The fixed-bucket variant is a strictly weaker rate limiter than the
  sliding-window variant: for every \<open>rpm > 0\<close> and every \<open>n\<close> it has an execution
  (\<open>maxConcurrent = rpm + n\<close>, \<open>rpm + n\<close> tasks) with \<open>n\<close> starts inside a single
  trailing interval of 60,000 ms, all of them at the end of the first bucket, because
  every task that waited for the end of the bucket resets the counter when it wakes; so
  the starts of one interval are bounded by no multiple of \<open>rpm\<close>. The sliding-window
  variant never has more than \<open>rpm\<close> starts in any trailing interval of 60,000 ms.
\<close>

theorem fixed_bucket_weaker:
  "(\<forall>r n. 0 < r \<longrightarrow>
      rpm (burst_env r n) = r \<and> maxConcurrent (burst_env r n) = r + int n \<and>
      (\<exists>s. fb_exec (burst_env r n) (burst_schedule n) (fb_rpmControlledBatch (burst_env r n) 0)
              = Some s \<and>
           fb_starts_in 60000 s = n)) \<and>
   (\<forall>e evs t0 s T. 0 < rpm e \<and> exec e evs (rpmControlledBatch e t0) = Some s \<longrightarrow>
       int (starts_in T s) \<le> rpm e)"
proof
  show "\<forall>r n. 0 < r \<longrightarrow>
      rpm (burst_env r n) = r \<and> maxConcurrent (burst_env r n) = r + int n \<and>
      (\<exists>s. fb_exec (burst_env r n) (burst_schedule n) (fb_rpmControlledBatch (burst_env r n) 0)
              = Some s \<and>
           fb_starts_in 60000 s = n)"
    using fb_burst_count burst_env_fields(1,2) by blast
next
  show "\<forall>e evs t0 s T. 0 < rpm e \<and> exec e evs (rpmControlledBatch e t0) = Some s \<longrightarrow>
       int (starts_in T s) \<le> rpm e"
  proof (intro allI impI)
    fix e evs t0 s T
    assume a: "0 < rpm e \<and> exec e evs (rpmControlledBatch e t0) = Some s"
    have "rate_inv e s" using a rate_reachable by blast
    then have "int (length (filter (\<lambda>x. T - windowDuration < x \<and> x \<le> T) (map fst (started s))))
               \<le> max 1 (rpm e)"
      unfolding rate_inv_def rate_ok_def by blast
    moreover have "length (filter (\<lambda>x. T - windowDuration < x \<and> x \<le> T) (map fst (started s)))
                   = starts_in T s"
      by (simp add: starts_in_def filter_map comp_def)
    ultimately show "int (starts_in T s) \<le> rpm e" using a by simp
  qed
qed

theorem fixed_bucket_weaker_witness:
  "(0::int) < 2 \<and> rpm (burst_env 2 7) = 2 \<and>
   (\<exists>s. fb_exec (burst_env 2 7) (burst_schedule 7) (fb_rpmControlledBatch (burst_env 2 7) 0) = Some s \<and>
        fb_starts_in 60000 s = 7) \<and>
   (\<exists>s. exec e2 evs2 (rpmControlledBatch e2 0) = Some s \<and> 0 < rpm e2 \<and>
        int (starts_in 60100 s) \<le> rpm e2)"
proof -
  have "exec e2 evs2 (rpmControlledBatch e2 0) \<noteq> None"
    by (simp add: e2_def evs2_def run_defs)
  then obtain s where ex: "exec e2 evs2 (rpmControlledBatch e2 0) = Some s" by auto
  have r: "0 < rpm e2" by (simp add: e2_def mk_env_def or_default_def)
  have w: "(\<forall>r n. 0 < r \<longrightarrow>
      rpm (burst_env r n) = r \<and> maxConcurrent (burst_env r n) = r + int n \<and>
      (\<exists>s. fb_exec (burst_env r n) (burst_schedule n) (fb_rpmControlledBatch (burst_env r n) 0)
              = Some s \<and>
           fb_starts_in 60000 s = n))"
    and sl: "\<forall>e evs t0 s T. 0 < rpm e \<and> exec e evs (rpmControlledBatch e t0) = Some s \<longrightarrow>
       int (starts_in T s) \<le> rpm e"
    using fixed_bucket_weaker by blast+
  have "int (starts_in 60100 s) \<le> rpm e2" using sl ex r by blast
  then have 2: "\<exists>s. exec e2 evs2 (rpmControlledBatch e2 0) = Some s \<and> 0 < rpm e2 \<and>
        int (starts_in 60100 s) \<le> rpm e2"
    using ex r by blast
  have "(0::int) < 2" by simp
  then have 1: "rpm (burst_env 2 7) = 2 \<and>
     (\<exists>s. fb_exec (burst_env 2 7) (burst_schedule 7) (fb_rpmControlledBatch (burst_env 2 7) 0) = Some s \<and>
        fb_starts_in 60000 s = 7)"
    using w by blast
  show ?thesis using 1 2 by simp
qed

section \<open>Failure isolation\<close>

text \<open>
  What \<open>try\<close>, \<open>catch\<close> and \<open>finally\<close> of \<open>executeTask\<close> achieve. In every reachable
  state of a live process (\<open>rpm > 0\<close>, \<open>maxConcurrent > 0\<close>) in which task \<open>i\<close> has a
  pending invocation, a rejection of that invocation with a value \<open>err\<close> other than
  \<open>undefined\<close> and \<open>null\<close> is recorded as \<open>{error: err}\<close> at index \<open>i\<close> and nowhere
  else; the queue, the other pending invocations and the pending timers are untouched and
  \<open>processQueue\<close> is scheduled again; the call has not returned and no promise has been
  rejected. When moreover every argument tuple that is not an array converts to a string,
  the batch can be completed from every state that the live process reaches afterwards:
  there is a continuation after which the call has returned an array of the length of
  \<open>fnArgs\<close> in which every index holds the outcome of its own task and index \<open>i\<close> holds
  the failure.
\<close>

lemma on_error_handled:
  assumes "err \<noteq> JUndef" "err \<noteq> JNull"
  shows "unhandled (on_error e err s) = unhandled s"
proof -
  have "get_prop ''status'' err \<noteq> None" "get_prop ''errorDetails'' err \<noteq> None"
    using assms by (cases err; simp split: option.splits)+
  then show ?thesis
    by (auto simp: on_error_def block_requests_def split: option.splits retry_parse.splits)
qed

lemma rejection_isolated:
  assumes reach: "exec e evs (rpmControlledBatch e t0) = Some s" and u: "unhandled s = 0"
    and rpm: "0 < rpm e" and m: "0 < maxConcurrent e"
    and pend: "map_of (calling s) i = Some args"
    and err: "err \<noteq> JUndef" "err \<noteq> JNull"
    and cv: "\<forall>a \<in> set (fnArgs e). converts_to_string a"
  shows "\<exists>s1. step e (Settle i (Rejected err)) s = Some s1 \<and>
           results s1 = (results s)[i := Some (failure err)] \<and>
           taskQueue s1 = taskQueue s \<and>
           calling s1 = filter (\<lambda>c. fst c \<noteq> i) (calling s) \<and>
           timers s1 = timers s @ [(now s + 50, CbProcessQueue)] \<and>
           returned s1 = None \<and> unhandled s1 = 0 \<and>
           (\<forall>evs1 s2. exec e evs1 s1 = Some s2 \<and> unhandled s2 = 0 \<longrightarrow>
              (\<exists>evs2 s3 rs. exec e evs2 s2 = Some s3 \<and> returned s3 = Some rs \<and>
                 length rs = length (fnArgs e) \<and> rs ! i = Some (failure err) \<and>
                 (\<forall>j < length (fnArgs e). \<exists>r. rs ! j = Some r \<and> expected e (settled s3) j r)))"
proof -
  obtain s1 where s1: "settle e i (Rejected err) s = Some s1"
    using settle_enabled[OF pend] by blast
  have step1: "step e (Settle i (Rejected err)) s = Some s1" using s1 u by (simp add: step_def)
  have rdy: "ready e s" by (rule ready_reachable[OF reach m])
  then have ro: "ret_ok s" by (simp add: ready_def good_def)
  have st: "struct_gen e {#} s" by (rule ready_struct[OF rdy u])
  have ip: "i \<in># pending s" by (rule calling_pending(1)[OF pend])
  have "0 < activeTaskCount s" by (rule struct_active_pos[OF st ip])
  then have rn: "returned s = None" using ro by (cases "returned s") (auto simp: ret_ok_def)
  have iN: "i < length (fnArgs e)" by (rule struct_pending_results(1)[OF st ip])
  have arr: "fnArgs e ! i = JArr args"
    using st calling_pending(2)[OF pend] unfolding struct_gen_def calling_ok_def by blast
  have f1: "results s1 = (results s)[i := Some (failure err)]"
    using settle_fields(1)[OF s1] by simp
  have f2: "taskQueue s1 = taskQueue s" "calling s1 = filter (\<lambda>c. fst c \<noteq> i) (calling s)"
    "timers s1 = timers s @ [(now s + 50, CbProcessQueue)]" "returned s1 = None"
    using settle_fields(3,5,6,7)[OF s1] rn by simp_all
  have u1: "unhandled s1 = 0"
    using s1 u on_error_handled[OF err] by (auto elim!: settle_eq)
  have in1: "(i, args, Rejected err) \<in> set (settled s1)"
    using settle_fields(2)[OF s1] pend by auto
  have r1: "ready e s1" by (rule ready_step[OF rdy m step1])
  have live: "\<exists>evs2 s3 rs. exec e evs2 s2 = Some s3 \<and> returned s3 = Some rs \<and>
                 length rs = length (fnArgs e) \<and> rs ! i = Some (failure err) \<and>
                 (\<forall>j < length (fnArgs e). \<exists>r. rs ! j = Some r \<and> expected e (settled s3) j r)"
    if e1: "exec e evs1 s1 = Some s2" and u2: "unhandled s2 = 0" for evs1 s2
  proof -
    have r2: "ready e s2" by (rule ready_exec[OF e1 r1 m])
    obtain evs2 s3 where e2: "exec e evs2 s2 = Some s3" and ret: "returned s3 \<noteq> None"
      using can_finish[OF r2 u2 rpm m cv] by blast
    obtain rs where rs: "returned s3 = Some rs" using ret by auto
    have g3: "good e s3" using ready_exec[OF e2 r2 m] by (simp add: ready_def)
    have full: "length rs = length (fnArgs e) \<and>
         (\<forall>j < length (fnArgs e). \<exists>r. rs ! j = Some r \<and> expected e (settled s3) j r)"
      by (rule returned_full[OF g3 rs])
    obtain r where r: "rs ! i = Some r" "expected e (settled s3) i r" using full iN by blast
    then obtain out where out: "(i, args, out) \<in> set (settled s3)" "r = stored out"
      using arr by (auto simp: expected_def)
    have "exec e (evs1 @ evs2) s1 = Some s3" using e1 e2 by (simp add: exec_append)
    then obtain more where "settled s3 = settled s1 @ more" using settled_exec by blast
    then have in3: "(i, args, Rejected err) \<in> set (settled s3)" using in1 by simp
    have "distinct (map fst (settled s3))" using g3 by (simp add: good_def res_ok_def)
    then have "(args, out) = (args, Rejected err)" using out(1) in3 by (rule distinct_fst_unique)
    then have "rs ! i = Some (failure err)" using r(1) out(2) by simp
    then show ?thesis using e2 rs full by blast
  qed
  show ?thesis using step1 f1 f2 u1 live by blast
qed

text \<open>
  The same loss of the batch through an argument tuple: \<open>executeTask\<close> builds its log
  line from a tuple that is not an array before it records the failure, and the
  conversion of \<open>{toString: null}\<close> to a string throws. The task is never completed,
  the counter stays at 1, the promise of \<open>executeTask\<close> is rejected and the process
  ends with no result recorded.
\<close>

lemma unconvertible_arguments_end_process:
  "map_option results (exec e3 [Fire 0] (rpmControlledBatch e3 0)) = Some [None, None] \<and>
   map_option activeTaskCount (exec e3 [Fire 0] (rpmControlledBatch e3 0)) = Some 1 \<and>
   map_option unhandled (exec e3 [Fire 0] (rpmControlledBatch e3 0)) = Some 1 \<and>
   map_option returned (exec e3 [Fire 0] (rpmControlledBatch e3 0)) = Some None \<and>
   (\<forall>ev evs. exec e3 ([Fire 0] @ ev # evs) (rpmControlledBatch e3 0) = None)"
proof -
  have 1: "map_option results (exec e3 [Fire 0] (rpmControlledBatch e3 0)) = Some [None, None]"
    and 2: "map_option activeTaskCount (exec e3 [Fire 0] (rpmControlledBatch e3 0)) = Some 1"
    and 3: "map_option unhandled (exec e3 [Fire 0] (rpmControlledBatch e3 0)) = Some 1"
    and 4: "map_option returned (exec e3 [Fire 0] (rpmControlledBatch e3 0)) = Some None"
    by (simp_all add: e3_def run_defs numeral_2_eq_2)
  have "exec e3 ([Fire 0] @ ev # evs) (rpmControlledBatch e3 0) = None" for ev evs
    using 3 unfolding exec_append by (auto simp: step_def split: option.splits)
  then show ?thesis using 1 2 3 4 by blast
qed

text \<open>
  C4. The claim is what the \<open>try\<close>, \<open>catch\<close> and \<open>finally\<close> blocks of
  \<open>executeTask\<close> are written for, but the \<open>catch\<close> block reads \<open>error.status\<close>
  without looking at \<open>error\<close> first. When \<open>asyncFn\<close> rejects with \<open>undefined\<close>
  (or \<open>null\<close>), the failure is recorded at the index of the task and \<open>completeTask\<close>
  runs, but the read throws inside the \<open>catch\<close> block, the promise of \<open>executeTask\<close>
  is rejected with nothing to handle it, and the process ends: with two tasks run one at
  a time and the first rejected with \<open>undefined\<close>, the second task is never taken from
  the queue, its result stays a hole, and the call never returns, whatever happens next.
\<close>

theorem undefined_rejection_ends_process:
  "map_option results (exec e4 evs4 (rpmControlledBatch e4 0))
     = Some [Some (failure JUndef), None] \<and>
   map_option taskQueue (exec e4 evs4 (rpmControlledBatch e4 0)) = Some [1] \<and>
   map_option unhandled (exec e4 evs4 (rpmControlledBatch e4 0)) = Some 1 \<and>
   map_option returned (exec e4 evs4 (rpmControlledBatch e4 0)) = Some None \<and>
   (\<forall>ev evs. exec e4 (evs4 @ ev # evs) (rpmControlledBatch e4 0) = None)"
proof -
  have 1: "map_option results (exec e4 evs4 (rpmControlledBatch e4 0))
             = Some [Some (failure JUndef), None]"
    and 2: "map_option taskQueue (exec e4 evs4 (rpmControlledBatch e4 0)) = Some [1]"
    and 3: "map_option unhandled (exec e4 evs4 (rpmControlledBatch e4 0)) = Some 1"
    and 4: "map_option returned (exec e4 evs4 (rpmControlledBatch e4 0)) = Some None"
    by (simp_all add: e4_def evs4_def run_defs numeral_2_eq_2)
  have "exec e4 (evs4 @ ev # evs) (rpmControlledBatch e4 0) = None" for ev evs
    using 3 unfolding exec_append by (auto simp: step_def split: option.splits)
  then show ?thesis using 1 2 3 4 by blast
qed

end
